theory Spec2Isabelle
  imports Main "HOL-Library.AList"
begin

section \<open>Strings: file names derived from URLs\<close>

text \<open>
  A Python \<open>str\<close> is modelled by its UTF-8 encoding: a \<open>string\<close> of bytes, one
  \<open>char\<close> a byte. ASCII characters are single bytes below 128 and occur in no
  other character's encoding, so the operations on ASCII characters (split at a slash,
  remove a character, replace a space) are the same on the bytes. \<open>os.path\<close> is that
  of a POSIX system.
\<close>

subsection \<open>\<open>sanitize_filename\<close>\<close>

text \<open>The character class of \<^verbatim>\<open>re.sub(r'[<>:"/\\|?*]', '', filename)\<close>.\<close>

definition forbidden_chars :: "char set" where
  "forbidden_chars =
     {CHR ''<'', CHR ''>'', CHR '':'', CHR 0x22, CHR ''/'', CHR 0x5C, CHR ''|'', CHR ''?'',
      CHR ''*''}"

text \<open>
  The characters \<open>str.strip()\<close> removes, each as its UTF-8 bytes: the ASCII ones
  (U+0009 to U+000D, U+001C to U+001F, U+0020), and U+0085, U+00A0, U+1680, U+2000 to
  U+200A, U+2028, U+2029, U+202F, U+205F, U+3000.
\<close>

definition whitespace :: "string list" where
  "whitespace =
     [[CHR 0x09], [CHR 0x0A], [CHR 0x0B], [CHR 0x0C], [CHR 0x0D], [CHR 0x1C], [CHR 0x1D],
      [CHR 0x1E], [CHR 0x1F], [CHR 0x20],
      [CHR 0xC2, CHR 0x85], [CHR 0xC2, CHR 0xA0], [CHR 0xE1, CHR 0x9A, CHR 0x80],
      [CHR 0xE2, CHR 0x80, CHR 0x80], [CHR 0xE2, CHR 0x80, CHR 0x81],
      [CHR 0xE2, CHR 0x80, CHR 0x82], [CHR 0xE2, CHR 0x80, CHR 0x83],
      [CHR 0xE2, CHR 0x80, CHR 0x84], [CHR 0xE2, CHR 0x80, CHR 0x85],
      [CHR 0xE2, CHR 0x80, CHR 0x86], [CHR 0xE2, CHR 0x80, CHR 0x87],
      [CHR 0xE2, CHR 0x80, CHR 0x88], [CHR 0xE2, CHR 0x80, CHR 0x89],
      [CHR 0xE2, CHR 0x80, CHR 0x8A], [CHR 0xE2, CHR 0x80, CHR 0xA8],
      [CHR 0xE2, CHR 0x80, CHR 0xA9], [CHR 0xE2, CHR 0x80, CHR 0xAF],
      [CHR 0xE2, CHR 0x81, CHR 0x9F], [CHR 0xE3, CHR 0x80, CHR 0x80]]"

text \<open>
  \<open>match_len ws s\<close> is the length of the first of the byte sequences \<open>ws\<close> that \<open>s\<close>
  begins with, \<open>0\<close> when it begins with none; \<open>drop_matches ws s\<close> removes such
  sequences from the front of \<open>s\<close> as long as there is one.
\<close>

definition match_len :: "string list \<Rightarrow> string \<Rightarrow> nat" where
  "match_len ws s =
     (case List.find (\<lambda>w. take (length w) s = w) ws of None \<Rightarrow> 0 | Some w \<Rightarrow> length w)"

function drop_matches :: "string list \<Rightarrow> string \<Rightarrow> string" where
  "drop_matches ws s =
     (if match_len ws s = 0 then s else drop_matches ws (drop (match_len ws s) s))"
  by pat_completeness auto
termination
proof (relation "measure (\<lambda>(ws, s). length s)")
  show "wf (measure (\<lambda>(ws, s). length s))"
    by simp
next
  fix ws :: "string list" and s :: string
  assume pos: "match_len ws s \<noteq> 0"
  then obtain w where "take (length w) s = w" "length w \<noteq> 0"
    by (auto simp: match_len_def find_Some_iff split: option.splits)
  then have "s \<noteq> []"
    by auto
  with pos show "((ws, drop (match_len ws s) s), (ws, s)) \<in> measure (\<lambda>(ws, s). length s)"
    by simp
qed

declare drop_matches.simps [simp del]

definition lstrip :: "string \<Rightarrow> string" where
  "lstrip s = drop_matches whitespace s"

definition rstrip :: "string \<Rightarrow> string" where
  "rstrip s = rev (drop_matches (map rev whitespace) (rev s))"

definition strip :: "string \<Rightarrow> string" where
  "strip s = rstrip (lstrip s)"

text \<open>\<open>s.replace(' ', '_')\<close>: every space becomes an underscore.\<close>

definition replace_spaces :: "string \<Rightarrow> string" where
  "replace_spaces s = map (\<lambda>c. if c = CHR '' '' then CHR ''_'' else c) s"

definition sanitize_filename :: "string \<Rightarrow> string" where
  "sanitize_filename filename =
     (let filename = filter (\<lambda>c. c \<notin> forbidden_chars) filename
      in replace_spaces (strip filename))"

subsection \<open>\<open>os.path.basename\<close>, \<open>os.path.join\<close> (POSIX)\<close>

text \<open>\<open>basename p = p[p.rfind('/') + 1:]\<close>: what follows the last slash.\<close>

definition basename :: "string \<Rightarrow> string" where
  "basename p = rev (takeWhile (\<lambda>c. c \<noteq> CHR ''/'') (rev p))"

definition join :: "string \<Rightarrow> string \<Rightarrow> string" where
  "join a b =
     (if b \<noteq> [] \<and> hd b = CHR ''/'' then b
      else if a = [] \<or> last a = CHR ''/'' then a @ b
      else a @ ''/'' @ b)"

subsection \<open>\<open>urllib.parse.unquote\<close>\<close>

definition is_hex :: "char \<Rightarrow> bool" where
  "is_hex c \<longleftrightarrow> c \<in> set ''0123456789abcdefABCDEF''"

definition hex_val :: "char \<Rightarrow> nat" where
  "hex_val c =
     (let n = of_char c in
      if 48 \<le> n \<and> n \<le> 57 then n - 48
      else if 97 \<le> n \<and> n \<le> 102 then n - 87
      else n - 55)"

text \<open>
  \<open>unquote_to_bytes\<close>: an escape is a percent sign followed by two hexadecimal
  digits; a percent sign followed by anything else stays as it is.
\<close>

fun unquote_to_bytes :: "string \<Rightarrow> string" where
  "unquote_to_bytes (c # a # b # s) =
     (if c = CHR ''%'' \<and> is_hex a \<and> is_hex b
      then char_of (16 * hex_val a + hex_val b) # unquote_to_bytes s
      else c # unquote_to_bytes (a # b # s))"
| "unquote_to_bytes s = s"

text \<open>
  \<open>bytes.decode('utf-8', errors='replace')\<close>, as it shows in the encoding of the
  result. A lead byte says how many continuation bytes follow and in which range the
  first of them lies (this excludes overlong forms, surrogates and code points above
  U+10FFFF). A sequence that is complete stays; a lead byte with fewer valid
  continuation bytes than it needs is replaced, together with those, by one U+FFFD
  (the bytes EF BF BD); so is every byte that can start no sequence.
\<close>

definition followers :: "nat \<Rightarrow> (nat \<times> nat \<times> nat) option" where
  "followers b =
     (if 0xC2 \<le> b \<and> b \<le> 0xDF then Some (1, 0x80, 0xBF)
      else if b = 0xE0 then Some (2, 0xA0, 0xBF)
      else if b = 0xED then Some (2, 0x80, 0x9F)
      else if 0xE1 \<le> b \<and> b \<le> 0xEF then Some (2, 0x80, 0xBF)
      else if b = 0xF0 then Some (3, 0x90, 0xBF)
      else if 0xF1 \<le> b \<and> b \<le> 0xF3 then Some (3, 0x80, 0xBF)
      else if b = 0xF4 then Some (3, 0x80, 0x8F)
      else None)"

text \<open>How many of the next \<open>n\<close> bytes continue the sequence.\<close>

fun continuation :: "nat \<Rightarrow> nat \<Rightarrow> nat \<Rightarrow> string \<Rightarrow> nat" where
  "continuation 0 lo hi s = 0"
| "continuation (Suc n) lo hi [] = 0"
| "continuation (Suc n) lo hi (c # s) =
     (if lo \<le> of_char c \<and> (of_char c :: nat) \<le> hi then Suc (continuation n 0x80 0xBF s) else 0)"

definition replacement :: string where
  "replacement = [CHR 0xEF, CHR 0xBF, CHR 0xBD]"

function utf8_replace :: "string \<Rightarrow> string" where
  "utf8_replace [] = []"
| "utf8_replace (c # s) =
     (if (of_char c :: nat) < 0x80 then c # utf8_replace s
      else
        (case followers (of_char c) of
           None \<Rightarrow> replacement @ utf8_replace s
         | Some (n, lo, hi) \<Rightarrow>
             (let k = continuation n lo hi s
              in (if k = n then c # take k s else replacement) @ utf8_replace (drop k s))))"
  by pat_completeness auto
termination
  by (relation "measure length") auto

text \<open>
  \<open>unquote\<close> returns a string with no percent sign as it is; otherwise the escapes
  are turned into bytes and the bytes decoded. (Python decodes each run of ASCII
  characters apart and leaves the characters between the runs alone; on the encoding
  of a \<open>str\<close> that is the same, since a character that is not ASCII begins with a lead
  byte and is complete.)
\<close>

definition unquote :: "string \<Rightarrow> string" where
  "unquote s = (if CHR ''%'' \<notin> set s then s else utf8_replace (unquote_to_bytes s))"

subsection \<open>\<open>urllib.parse.urlparse(url).path\<close>\<close>

text \<open>
  \<open>urlparse(url).path\<close> is a function of the library, and the model takes it from the
  world (the field \<open>urlparse\<close> below; \<open>None\<close> is its \<open>ValueError\<close>), so that what is
  proved holds for whatever the library does. \<open>urlparse_path\<close> is the function the
  example worlds use: the path component as \<open>urlsplit\<close> and \<open>urlparse\<close> of CPython
  3.12 compute it for a URL with an ASCII network location and no bracketed host. It
  drops leading control characters and spaces, removes tab, CR and LF, splits off a
  scheme at the first colon, a network location after \<open>//\<close>, then the fragment, the
  query and (for the schemes that have them) the parameters of the last segment. The
  library validates a bracketed host and a network location that is not ASCII, which
  \<open>urlparse_path\<close> does not.
\<close>

definition is_c0_or_space :: "char \<Rightarrow> bool" where
  "is_c0_or_space c \<longleftrightarrow> (of_char c :: nat) \<le> 32"

definition is_unsafe :: "char \<Rightarrow> bool" where
  "is_unsafe c \<longleftrightarrow> c \<in> {CHR 0x09, CHR 0x0D, CHR 0x0A}"

definition is_ascii_alpha :: "char \<Rightarrow> bool" where
  "is_ascii_alpha c \<longleftrightarrow>
     (let n = (of_char c :: nat) in (65 \<le> n \<and> n \<le> 90) \<or> (97 \<le> n \<and> n \<le> 122))"

definition is_scheme_char :: "char \<Rightarrow> bool" where
  "is_scheme_char c \<longleftrightarrow>
     is_ascii_alpha c \<or> (let n = (of_char c :: nat) in 48 \<le> n \<and> n \<le> 57)
     \<or> c \<in> {CHR ''+'', CHR ''-'', CHR ''.''}"

definition lower :: "string \<Rightarrow> string" where
  "lower s =
     map (\<lambda>c. let n = (of_char c :: nat) in if 65 \<le> n \<and> n \<le> 90 then char_of (n + 32) else c) s"

definition uses_params :: "string list" where
  "uses_params =
     ['''', ''ftp'', ''hdl'', ''prospero'', ''http'', ''imap'', ''https'', ''shttp'', ''rtsp'',
      ''rtspu'', ''sip'', ''sips'', ''mms'', ''sftp'', ''tel'']"

text \<open>\<open>split_scheme url\<close> is the pair of the scheme and the rest of the URL.\<close>

definition split_scheme :: "string \<Rightarrow> string \<times> string" where
  "split_scheme url =
     (let pre = takeWhile (\<lambda>c. c \<noteq> CHR '':'') url in
      if CHR '':'' \<in> set url \<and> pre \<noteq> [] \<and> is_ascii_alpha (hd url) \<and> list_all is_scheme_char pre
      then (lower pre, drop (length pre + 1) url)
      else ('''', url))"

text \<open>\<open>_splitnetloc(url, 2)\<close>: the network location ends at the first of \<open>/ ? #\<close>.\<close>

definition split_netloc :: "string \<Rightarrow> string \<times> string" where
  "split_netloc url =
     (let rest = drop 2 url;
          netloc = takeWhile (\<lambda>c. c \<notin> {CHR ''/'', CHR ''?'', CHR ''#''}) rest
      in (netloc, drop (length netloc) rest))"

text \<open>\<open>_splitparams\<close>: the parameters start at the first semicolon of the last segment.\<close>

definition split_params :: "string \<Rightarrow> string" where
  "split_params url =
     (if CHR ''/'' \<in> set url then
        (let seg = basename url; dir = take (length url - length seg) url in
         if CHR '';'' \<in> set seg then dir @ takeWhile (\<lambda>c. c \<noteq> CHR '';'') seg else url)
      else takeWhile (\<lambda>c. c \<noteq> CHR '';'') url)"

definition urlparse_path :: "string \<Rightarrow> string option" where
  "urlparse_path url0 =
     (let url = filter (\<lambda>c. \<not> is_unsafe c) (dropWhile is_c0_or_space url0);
          (scheme, url) = split_scheme url;
          (netloc, url) = (if take 2 url = ''//'' then split_netloc url else ('''', url))
      in if (CHR ''['' \<in> set netloc) \<noteq> (CHR '']'' \<in> set netloc) then None
         else
           (let url = takeWhile (\<lambda>c. c \<noteq> CHR ''#'') url;
                url = takeWhile (\<lambda>c. c \<noteq> CHR ''?'') url
            in Some (if scheme \<in> set uses_params \<and> CHR '';'' \<in> set url then split_params url
                     else url)))"

subsection \<open>\<open>os.path.normpath\<close>, \<open>abspath\<close>, \<open>relpath\<close> (POSIX)\<close>

text \<open>\<open>s.split(c)\<close> and \<open>c.join(parts)\<close>.\<close>

fun split_on :: "char \<Rightarrow> string \<Rightarrow> string list" where
  "split_on c [] = [[]]"
| "split_on c (x # xs) =
     (if x = c then [] # split_on c xs
      else (case split_on c xs of [] \<Rightarrow> [[x]] | w # ws \<Rightarrow> (x # w) # ws))"

fun join_with :: "char \<Rightarrow> string list \<Rightarrow> string" where
  "join_with c [] = []"
| "join_with c [w] = w"
| "join_with c (w # ws) = w @ c # join_with c ws"

text \<open>
  The loop of \<open>normpath\<close> over the components: empty components and \<open>.\<close> are
  skipped, \<open>..\<close> removes the component before it, unless there is none to remove.
\<close>

fun norm_comps :: "bool \<Rightarrow> string list \<Rightarrow> string list \<Rightarrow> string list" where
  "norm_comps initial_slashes new_comps [] = new_comps"
| "norm_comps initial_slashes new_comps (cmp # comps) =
     (if cmp = [] \<or> cmp = ''.'' then norm_comps initial_slashes new_comps comps
      else if cmp \<noteq> ''..'' \<or> (\<not> initial_slashes \<and> new_comps = [])
              \<or> (new_comps \<noteq> [] \<and> last new_comps = ''..'')
      then norm_comps initial_slashes (new_comps @ [cmp]) comps
      else if new_comps \<noteq> [] then norm_comps initial_slashes (butlast new_comps) comps
      else norm_comps initial_slashes new_comps comps)"

definition normpath :: "string \<Rightarrow> string" where
  "normpath path =
     (if path = [] then ''.''
      else
        (let initial_slashes =
               (if take 1 path = ''/'' then
                  (if take 2 path = ''//'' \<and> take 3 path \<noteq> ''///'' then 2 else 1)
                else (0::nat));
             comps = norm_comps (initial_slashes \<noteq> 0) [] (split_on CHR ''/'' path);
             p = replicate initial_slashes CHR ''/'' @ join_with CHR ''/'' comps
         in if p = [] then ''.'' else p))"

definition isabs :: "string \<Rightarrow> bool" where
  "isabs s \<longleftrightarrow> take 1 s = ''/''"

text \<open>The current directory \<open>cwd\<close> is what \<open>os.getcwd()\<close> returns.\<close>

definition abspath :: "string \<Rightarrow> string \<Rightarrow> string" where
  "abspath cwd path = normpath (if isabs path then path else join cwd path)"

fun common_prefix_len :: "string list \<Rightarrow> string list \<Rightarrow> nat" where
  "common_prefix_len (x # xs) (y # ys) = (if x = y then Suc (common_prefix_len xs ys) else 0)"
| "common_prefix_len _ _ = 0"

text \<open>
  \<open>os.path.relpath(path, start)\<close>. It raises \<open>ValueError\<close> on an empty \<open>path\<close>; every
  call of the source is under \<open>if path:\<close>, and the model's callers keep that test.
\<close>

definition relpath :: "string \<Rightarrow> string \<Rightarrow> string \<Rightarrow> string" where
  "relpath cwd path start =
     (let start_list = filter (\<lambda>x. x \<noteq> []) (split_on CHR ''/'' (abspath cwd start));
          path_list = filter (\<lambda>x. x \<noteq> []) (split_on CHR ''/'' (abspath cwd path));
          i = common_prefix_len start_list path_list;
          rel_list = replicate (length start_list - i) ''..'' @ drop i path_list
      in if rel_list = [] then ''.'' else join_with CHR ''/'' rel_list)"

subsection \<open>\<open>str\<close> of a size\<close>

definition digit_char :: "nat \<Rightarrow> char" where
  "digit_char d = char_of (48 + d)"

function str_nat :: "nat \<Rightarrow> string" where
  "str_nat n = (if n < 10 then [digit_char n] else str_nat (n div 10) @ [digit_char (n mod 10)])"
  by pat_completeness auto
termination
  by (relation "measure id") auto

declare str_nat.simps [simp del]

text \<open>Reading a decimal numeral back, as \<open>int(s)\<close> does on a string of digits.\<close>

definition int_of_str :: "string \<Rightarrow> nat" where
  "int_of_str s = foldl (\<lambda>acc c. 10 * acc + (of_char c - 48)) 0 s"

subsection \<open>\<open>datetime.utcnow().strftime\<close>\<close>

record datetime =
  year :: nat
  month :: nat
  day :: nat
  hour :: nat
  minute :: nat
  second :: nat

definition is_leap :: "nat \<Rightarrow> bool" where
  "is_leap y \<longleftrightarrow> y mod 4 = 0 \<and> (y mod 100 \<noteq> 0 \<or> y mod 400 = 0)"

definition days_before_year :: "nat \<Rightarrow> nat" where
  "days_before_year y = (let y = y - 1 in y * 365 + y div 4 - y div 100 + y div 400)"

definition days_before_month :: "nat \<Rightarrow> nat \<Rightarrow> nat" where
  "days_before_month y m =
     [0, 0, 31, 59, 90, 120, 151, 181, 212, 243, 273, 304, 334] ! m
     + (if m > 2 \<and> is_leap y then 1 else 0)"

definition toordinal :: "datetime \<Rightarrow> nat" where
  "toordinal t = days_before_year (year t) + days_before_month (year t) (month t) + day t"

text \<open>\<open>weekday()\<close>: Monday is 0.\<close>

definition weekday :: "datetime \<Rightarrow> nat" where
  "weekday t = (toordinal t + 6) mod 7"

definition day_names :: "string list" where
  "day_names = [''Mon'', ''Tue'', ''Wed'', ''Thu'', ''Fri'', ''Sat'', ''Sun'']"

definition month_names :: "string list" where
  "month_names =
     [''Jan'', ''Feb'', ''Mar'', ''Apr'', ''May'', ''Jun'', ''Jul'', ''Aug'', ''Sep'', ''Oct'',
      ''Nov'', ''Dec'']"

definition two_digits :: "nat \<Rightarrow> string" where
  "two_digits n = [digit_char (n div 10 mod 10), digit_char (n mod 10)]"

definition four_digits :: "nat \<Rightarrow> string" where
  "four_digits n = two_digits (n div 100) @ two_digits n"

text \<open>
  \<^verbatim>\<open>strftime('%a, %d %b %Y %H:%M:%S +0000')\<close> in the C locale, for the years
  1000 to 9999 (where \<open>%Y\<close> has four digits on every platform).
\<close>

definition strftime :: "datetime \<Rightarrow> string" where
  "strftime t =
     day_names ! weekday t @ '', '' @ two_digits (day t) @ '' '' @ month_names ! (month t - 1)
     @ '' '' @ four_digits (year t) @ '' '' @ two_digits (hour t) @ '':'' @ two_digits (minute t)
     @ '':'' @ two_digits (second t) @ '' +0000''"

section \<open>The feed document\<close>

text \<open>
  An \<open>xml.etree.ElementTree.Element\<close>: its tag (a namespaced tag is written
  \<open>{uri}local\<close>), its attributes in insertion order, its text (\<open>elem_text\<close>) and its children. The
  processing never reads or writes the \<open>tail\<close> of an element, which is left out.
\<close>

datatype element =
  Element (tag: string) (attrib: "(string \<times> string) list") (elem_text: "string option")
    (children: "element list")

text \<open>\<open>e.get(k)\<close>, \<open>e.set(k, v)\<close> (a dictionary keeps the position of a key it has) and
  \<open>e.text = v\<close>.\<close>

definition get_attr :: "element \<Rightarrow> string \<Rightarrow> string option" where
  "get_attr e k = map_of (attrib e) k"

definition set_attr :: "string \<Rightarrow> string \<Rightarrow> element \<Rightarrow> element" where
  "set_attr k v e = Element (tag e) (AList.update k v (attrib e)) (elem_text e) (children e)"

definition set_text :: "string \<Rightarrow> element \<Rightarrow> element" where
  "set_text v e = Element (tag e) (attrib e) (Some v) (children e)"

text \<open>
  Elements are mutable objects, found once and changed in place later. A reference to
  an element below a given one is the list of child indices that leads to it.
\<close>

type_synonym path = "nat list"

primrec get_at :: "path \<Rightarrow> element \<Rightarrow> element option" where
  "get_at [] e = Some e"
| "get_at (i # p) e = (if i < length (children e) then get_at p (children e ! i) else None)"

primrec update_at :: "path \<Rightarrow> (element \<Rightarrow> element) \<Rightarrow> element \<Rightarrow> element" where
  "update_at [] f e = f e"
| "update_at (i # p) f e =
     Element (tag e) (attrib e) (elem_text e)
       (if i < length (children e) then (children e)[i := update_at p f (children e ! i)]
        else children e)"

subsection \<open>\<open>find\<close> and \<open>findall\<close>\<close>

text \<open>\<open>e.findall(t)\<close> for a plain tag: the children of \<open>e\<close> with that tag, in order.\<close>

definition findall :: "string \<Rightarrow> element \<Rightarrow> nat list" where
  "findall t e = filter (\<lambda>i. tag (children e ! i) = t) [0..<length (children e)]"

text \<open>\<open>e.find(t)\<close> for a plain tag: the first such child.\<close>

definition find_child :: "string \<Rightarrow> element \<Rightarrow> nat option" where
  "find_child t e = (case findall t e of [] \<Rightarrow> None | i # _ \<Rightarrow> Some i)"

text \<open>\<open>e.find('a/b')\<close>: the first child tagged \<open>b\<close> of a child tagged \<open>a\<close>.\<close>

definition find_grandchild :: "string \<Rightarrow> string \<Rightarrow> element \<Rightarrow> path option" where
  "find_grandchild a b e =
     (case concat (map (\<lambda>i. map (\<lambda>j. [i, j]) (findall b (children e ! i))) (findall a e)) of
        [] \<Rightarrow> None
      | p # _ \<Rightarrow> Some p)"

text \<open>
  \<open>e.iter()\<close> without \<open>e\<close> itself: the descendants of \<open>e\<close> in document order, each with
  its path from \<open>e\<close>.
\<close>

fun descendants :: "element \<Rightarrow> (path \<times> element) list"
  and descendants_from :: "nat \<Rightarrow> element list \<Rightarrow> (path \<times> element) list" where
  "descendants (Element t a x cs) = descendants_from 0 cs"
| "descendants_from i [] = []"
| "descendants_from i (c # cs) =
     ([i], c) # map (\<lambda>(p, d). (i # p, d)) (descendants c) @ descendants_from (Suc i) cs"

text \<open>\<open>e.find('.//t')\<close>: the first descendant of \<open>e\<close> tagged \<open>t\<close>.\<close>

definition find_descendant :: "string \<Rightarrow> element \<Rightarrow> (path \<times> element) option" where
  "find_descendant t e = List.find (\<lambda>(p, d). tag d = t) (descendants e)"

definition itunes_image :: string where
  "itunes_image = ''{http://www.itunes.com/dtds/podcast-1.0.dtd}image''"

definition atom_link :: string where
  "atom_link = ''{http://www.w3.org/2005/Atom}link''"

section \<open>The world: file system, network, clock\<close>

datatype node = Dir | File string

text \<open>
  What \<open>requests.get\<close> returns: the status, the \<open>Content-Length\<close> header (absent, an
  integer, or text that \<open>int\<close> rejects), the chunks of the body that arrive, and whether
  the body arrives whole (the transfer raises after the last chunk otherwise).
\<close>

datatype header = NoHeader | IntHeader int | BadHeader

record response =
  status_code :: nat
  content_length :: header
  body :: "string list"
  complete :: bool

text \<open>
  The file system maps normalised absolute paths to nodes. \<open>network n url\<close> is the
  answer to the request for \<open>url\<close> made after \<open>n\<close> earlier requests (\<open>None\<close>:
  \<open>requests.get\<close> raises), and \<open>requests\<close> lists the URLs requested so far.
  \<open>can_write p\<close> says whether \<open>open(p, 'wb')\<close> and \<open>os.makedirs(p)\<close> succeed.
  \<open>urlparse\<close> is \<open>urllib.parse.urlparse(url).path\<close> (\<open>None\<close>: \<open>ValueError\<close>).
  \<open>fromstring\<close> and \<open>tostring\<close> are the parser and the serialiser of
  \<open>xml.etree.ElementTree\<close> (\<open>None\<close>: \<open>ParseError\<close>); \<open>utcnow\<close> is the clock reading
  of the run's one call of \<open>datetime.utcnow()\<close>. Console output is not modelled.
\<close>

record world =
  getcwd :: string
  files :: "string \<rightharpoonup> node"
  dir_size :: nat
  can_write :: "string \<Rightarrow> bool"
  network :: "nat \<Rightarrow> string \<Rightarrow> response option"
  requests :: "string list"
  urlparse :: "string \<Rightarrow> string option"
  fromstring :: "string \<Rightarrow> element option"
  tostring :: "element \<Rightarrow> string"
  utcnow :: datetime

datatype error = RequestException | ParseError | AttributeError | TypeError | OSError

definition lookup :: "world \<Rightarrow> string \<Rightarrow> node option" where
  "lookup w p = files w (abspath (getcwd w) p)"

text \<open>\<open>os.path.exists\<close>: the empty path does not exist.\<close>

definition path_exists :: "world \<Rightarrow> string \<Rightarrow> bool" where
  "path_exists w p \<longleftrightarrow> p \<noteq> [] \<and> lookup w p \<noteq> None"

definition getsize :: "world \<Rightarrow> string \<Rightarrow> error + nat" where
  "getsize w p =
     (if p = [] then Inl OSError
      else case lookup w p of
             None \<Rightarrow> Inl OSError
           | Some Dir \<Rightarrow> Inr (dir_size w)
           | Some (File c) \<Rightarrow> Inr (length c))"

text \<open>\<open>open(p, 'wb')\<close> succeeds: never on the empty path.\<close>

definition can_open :: "world \<Rightarrow> string \<Rightarrow> bool" where
  "can_open w p \<longleftrightarrow> p \<noteq> [] \<and> can_write w p"

definition write_file :: "world \<Rightarrow> string \<Rightarrow> string \<Rightarrow> world" where
  "write_file w p c = w\<lparr>files := (files w)(abspath (getcwd w) p \<mapsto> File c)\<rparr>"

definition requests_get :: "world \<Rightarrow> string \<Rightarrow> response option \<times> world" where
  "requests_get w url = (network w (length (requests w)) url, w\<lparr>requests := requests w @ [url]\<rparr>)"

text \<open>
  The file name \<open>download_file\<close> derives from a URL (line 32 of the source):
  \<^verbatim>\<open>self.sanitize_filename(os.path.basename(unquote(urlparse(url).path)))\<close>.
\<close>

definition derive_filename :: "world \<Rightarrow> string \<Rightarrow> string option" where
  "derive_filename w url =
     map_option (\<lambda>path. sanitize_filename (basename (unquote path))) (urlparse w url)"

section \<open>The downloader\<close>

record downloader =
  output_folder :: string
  media_folder :: string
  images_folder :: string

subsection \<open>\<open>__init__\<close>\<close>

text \<open>The directory and every directory above it, as normalised absolute paths.\<close>

definition ancestors :: "string \<Rightarrow> string list" where
  "ancestors p =
     (let comps = filter (\<lambda>x. x \<noteq> []) (split_on CHR ''/'' p)
      in map (\<lambda>n. CHR ''/'' # join_with CHR ''/'' (take n comps)) [1..<Suc (length comps)])"

text \<open>\<open>os.makedirs(name)\<close> creates the directory and the missing ones above it.\<close>

definition makedirs :: "world \<Rightarrow> string \<Rightarrow> error + world" where
  "makedirs w name =
     (if name = [] \<or> path_exists w name \<or> \<not> can_write w name then Inl OSError
      else Inr (w\<lparr>files := (\<lambda>p. if p \<in> set (ancestors (abspath (getcwd w) name))
                                      \<and> files w p = None
                                   then Some Dir else files w p)\<rparr>))"

fun create_folders :: "world \<Rightarrow> string list \<Rightarrow> error option \<times> world" where
  "create_folders w [] = (None, w)"
| "create_folders w (folder # folders) =
     (if \<not> path_exists w folder then
        (case makedirs w folder of
           Inl e \<Rightarrow> (Some e, w)
         | Inr w' \<Rightarrow> create_folders w' folders)
      else create_folders w folders)"

definition init :: "world \<Rightarrow> string \<Rightarrow> (error + downloader) \<times> world" where
  "init w out =
     (let self = \<lparr>output_folder = out, media_folder = join out ''media'',
                  images_folder = join out ''images''\<rparr>
      in case create_folders w [output_folder self, media_folder self, images_folder self] of
           (Some e, w') \<Rightarrow> (Inl e, w')
         | (None, w') \<Rightarrow> (Inr self, w'))"

subsection \<open>\<open>download_file\<close>\<close>

text \<open>
  The result is the local path, or \<open>None\<close>; every exception is caught. The URL is what
  \<open>Element.get\<close> returned, so it can be \<open>None\<close>. The branches, in the order of the
  source: no URL; \<open>urlparse\<close> raises; the destination exists (nothing is requested);
  \<open>requests.get\<close> raises; \<open>int\<close> rejects the \<open>Content-Length\<close> header (no file is
  opened yet); \<open>open\<close> raises; the body is written as it arrives, and the transfer
  either ends or raises, leaving what was written.
\<close>

definition download_file :: "world \<Rightarrow> string option \<Rightarrow> string \<Rightarrow> string option \<times> world" where
  "download_file w url destination_folder =
     (case url of
        None \<Rightarrow> (None, w)
      | Some u \<Rightarrow>
          if u = [] then (None, w)
          else
            (case derive_filename w u of
               None \<Rightarrow> (None, w)
             | Some filename \<Rightarrow>
                 (let destination = join destination_folder filename
                  in if path_exists w destination then (Some destination, w)
                     else
                       (case requests_get w u of
                          (None, w1) \<Rightarrow> (None, w1)
                        | (Some r, w1) \<Rightarrow>
                            if content_length r = BadHeader then (None, w1)
                            else if \<not> can_open w1 destination then (None, w1)
                            else
                              (let w2 = write_file w1 destination (concat (body r))
                               in if complete r then (Some destination, w2)
                                  else (None, w2))))))"

subsection \<open>\<open>process_feed\<close>: the cover image\<close>

text \<open>Lines 72 to 84. A Python string is true when it is not empty.\<close>

definition process_cover :: "downloader \<Rightarrow> element \<Rightarrow> world \<Rightarrow> element \<times> world" where
  "process_cover self channel w =
     (case find_descendant itunes_image channel of
        None \<Rightarrow> (channel, w)
      | Some (p, cover) \<Rightarrow>
          (case download_file w (get_attr cover ''href'') (images_folder self) of
             (None, w1) \<Rightarrow> (channel, w1)
           | (Some image_path, w1) \<Rightarrow>
               if image_path = [] then (channel, w1)
               else
                 (let relative_path = relpath (getcwd w1) image_path (output_folder self);
                      channel1 = update_at p (set_attr ''href'' relative_path) channel
                  in case find_grandchild ''image'' ''url'' channel1 of
                       None \<Rightarrow> (channel1, w1)
                     | Some q \<Rightarrow> (update_at q (set_text relative_path) channel1, w1))))"

subsection \<open>\<open>process_feed\<close>: one item\<close>

text \<open>
  Lines 92 to 100. The description passed to \<open>download_file\<close> is
  \<open>os.path.basename(audio_url)\<close>, computed before the call: on an enclosure with no
  \<open>url\<close> attribute it raises \<open>TypeError\<close>, outside every \<open>try\<close> but the one of \<open>main\<close>.
\<close>

definition process_enclosure :: "downloader \<Rightarrow> element \<Rightarrow> world \<Rightarrow> (error + element) \<times> world" where
  "process_enclosure self item w =
     (case find_child ''enclosure'' item of
        None \<Rightarrow> (Inr item, w)
      | Some j \<Rightarrow>
          (let audio_url = get_attr (children item ! j) ''url'' in
           if audio_url = None then (Inl TypeError, w)
           else
             (case download_file w audio_url (media_folder self) of
                (None, w1) \<Rightarrow> (Inr item, w1)
              | (Some audio_path, w1) \<Rightarrow>
                  if audio_path = [] then (Inr item, w1)
                  else
                    (let relative_path = relpath (getcwd w1) audio_path (output_folder self);
                         item1 = update_at [j] (set_attr ''url'' relative_path) item
                     in case getsize w1 audio_path of
                          Inl e \<Rightarrow> (Inl e, w1)
                        | Inr n \<Rightarrow>
                            (Inr (update_at [j] (set_attr ''length'' (str_nat n)) item1), w1)))))"

text \<open>Lines 103 to 110.\<close>

definition process_episode_image :: "downloader \<Rightarrow> element \<Rightarrow> world \<Rightarrow> element \<times> world" where
  "process_episode_image self item w =
     (case find_descendant itunes_image item of
        None \<Rightarrow> (item, w)
      | Some (p, episode_image) \<Rightarrow>
          (case download_file w (get_attr episode_image ''href'') (images_folder self) of
             (None, w1) \<Rightarrow> (item, w1)
           | (Some image_path, w1) \<Rightarrow>
               if image_path = [] then (item, w1)
               else
                 (let relative_path = relpath (getcwd w1) image_path (output_folder self)
                  in (update_at p (set_attr ''href'' relative_path) item, w1))))"

definition process_item :: "downloader \<Rightarrow> element \<Rightarrow> world \<Rightarrow> (error + element) \<times> world" where
  "process_item self item w =
     (case process_enclosure self item w of
        (Inl e, w1) \<Rightarrow> (Inl e, w1)
      | (Inr item1, w1) \<Rightarrow>
          (case process_episode_image self item1 w1 of (item2, w2) \<Rightarrow> (Inr item2, w2)))"

text \<open>
  The loop over \<open>items\<close>, the children found by \<open>channel.findall('item')\<close> before the
  loop starts. Each one is read from the channel as it is now, and changed in place.
\<close>

fun process_items ::
  "downloader \<Rightarrow> nat list \<Rightarrow> element \<Rightarrow> world \<Rightarrow> (error + element) \<times> world" where
  "process_items self [] channel w = (Inr channel, w)"
| "process_items self (i # items) channel w =
     (case process_item self (children channel ! i) w of
        (Inl e, w1) \<Rightarrow> (Inl e, w1)
      | (Inr item, w1) \<Rightarrow> process_items self items (update_at [i] (\<lambda>_. item) channel) w1)"

subsection \<open>\<open>update_feed_metadata\<close>\<close>

definition update_link :: "element \<Rightarrow> nat \<Rightarrow> element" where
  "update_link channel i =
     (if get_attr (children channel ! i) ''rel'' = Some ''self''
      then update_at [i] (set_attr ''href'' ''feed.xml'') channel
      else channel)"

definition update_feed_metadata :: "world \<Rightarrow> element \<Rightarrow> element" where
  "update_feed_metadata w channel =
     (let channel1 =
            (case find_child ''lastBuildDate'' channel of
               None \<Rightarrow> channel
             | Some i \<Rightarrow> update_at [i] (set_text (strftime (utcnow w))) channel)
      in foldl update_link channel1 (findall atom_link channel1))"

subsection \<open>\<open>process_feed\<close> and \<open>main\<close>\<close>

text \<open>
  Lines 60 to 70: the feed is requested (the body is read at once, so a transfer that
  breaks raises here), parsed, and its channel looked up. The status of the response is
  not read. A root with no \<open>channel\<close> child gives \<open>None\<close>, and the next line raises
  \<open>AttributeError\<close>.
\<close>

definition fetch_feed :: "world \<Rightarrow> string \<Rightarrow> (error + element) \<times> world" where
  "fetch_feed w rss_url =
     (case requests_get w rss_url of
        (None, w1) \<Rightarrow> (Inl RequestException, w1)
      | (Some r, w1) \<Rightarrow>
          if \<not> complete r then (Inl RequestException, w1)
          else
            (case fromstring w1 (concat (body r)) of
               None \<Rightarrow> (Inl ParseError, w1)
             | Some root \<Rightarrow> (Inr root, w1)))"

text \<open>Lines 70 to 118, on the parsed document.\<close>

definition process_tree :: "downloader \<Rightarrow> element \<Rightarrow> world \<Rightarrow> (error + element) \<times> world" where
  "process_tree self root w =
     (case find_child ''channel'' root of
        None \<Rightarrow> (Inl AttributeError, w)
      | Some c \<Rightarrow>
          (case process_cover self (children root ! c) w of
             (channel1, w1) \<Rightarrow>
               (case process_items self (findall ''item'' channel1) channel1 w1 of
                  (Inl e, w2) \<Rightarrow> (Inl e, w2)
                | (Inr channel2, w2) \<Rightarrow>
                    (let root' = update_at [c] (\<lambda>_. update_feed_metadata w2 channel2) root;
                         output_rss = join (output_folder self) ''feed.xml''
                     in if can_open w2 output_rss
                        then (Inr root', write_file w2 output_rss (tostring w2 root'))
                        else (Inl OSError, w2)))))"

definition process_feed :: "downloader \<Rightarrow> world \<Rightarrow> string \<Rightarrow> (error + element) \<times> world" where
  "process_feed self w rss_url =
     (case fetch_feed w rss_url of
        (Inl e, w1) \<Rightarrow> (Inl e, w1)
      | (Inr root, w1) \<Rightarrow> process_tree self root w1)"

text \<open>
  \<open>main\<close> catches every exception and prints it: the result is the error printed, if
  any, and the world the run leaves.
\<close>

definition main :: "world \<Rightarrow> string \<Rightarrow> string \<Rightarrow> error option \<times> world" where
  "main w url_typed folder_typed =
     (let rss_url = strip url_typed; out = strip folder_typed
      in case init w out of
           (Inl e, w1) \<Rightarrow> (Some e, w1)
         | (Inr self, w1) \<Rightarrow>
             (case process_feed self w1 rss_url of
                (Inl e, w2) \<Rightarrow> (Some e, w2)
              | (Inr _, w2) \<Rightarrow> (None, w2)))"

section \<open>What the processing leaves alone\<close>

text \<open>
  The attributes the processing writes and the elements whose text it writes, and the
  skeleton of a document: the document without the values of these attributes and
  without the texts of these elements. Tags, the other attributes, the other texts and
  the order of the children are what is left.
\<close>

definition rewritten_attrs :: "string set" where
  "rewritten_attrs = {''url'', ''length'', ''href''}"

definition rewritten_texts :: "string set" where
  "rewritten_texts = {''url'', ''lastBuildDate''}"

fun skeleton :: "element \<Rightarrow> element" where
  "skeleton (Element t a x cs) =
     Element t (filter (\<lambda>(k, v). k \<notin> rewritten_attrs) a)
       (if t \<in> rewritten_texts then None else x) (map skeleton cs)"

text \<open>The \<open>item\<close> elements of a document: the \<open>item\<close> children of its channel.\<close>

definition items_of :: "element \<Rightarrow> element list" where
  "items_of root =
     (case find_child ''channel'' root of
        None \<Rightarrow> []
      | Some c \<Rightarrow>
          map (\<lambda>i. children (children root ! c) ! i) (findall ''item'' (children root ! c)))"

text \<open>
  \<open>evolves w w'\<close>: the world \<open>w'\<close> is \<open>w\<close> after some requests and downloads. It has
  every file and directory of \<open>w\<close>, unchanged; the current directory, the clock and
  the behaviour of the network, of the disk and of the XML library are the same.
\<close>

definition evolves :: "world \<Rightarrow> world \<Rightarrow> bool" where
  "evolves w w' \<longleftrightarrow>
     getcwd w' = getcwd w \<and> dir_size w' = dir_size w \<and> can_write w' = can_write w
     \<and> network w' = network w \<and> urlparse w' = urlparse w \<and> fromstring w' = fromstring w
     \<and> tostring w' = tostring w
     \<and> utcnow w' = utcnow w \<and> files w \<subseteq>\<^sub>m files w'"

text \<open>
  \<open>fresh ds w u\<close>: the file name derived from the URL \<open>u\<close> is that of no file of \<open>w\<close>
  in one of the folders \<open>ds\<close>. \<open>transfers_ok self w w'\<close>: from \<open>w\<close> to \<open>w'\<close> the
  requests were for such URLs only.
\<close>

definition fresh :: "string list \<Rightarrow> world \<Rightarrow> string \<Rightarrow> bool" where
  "fresh ds w u =
     (case derive_filename w u of
        None \<Rightarrow> False
      | Some fn \<Rightarrow> list_ex (\<lambda>d. \<not> path_exists w (join d fn)) ds)"

definition transfers_ok :: "downloader \<Rightarrow> world \<Rightarrow> world \<Rightarrow> bool" where
  "transfers_ok self w w' \<longleftrightarrow>
     take (length (requests w)) (requests w') = requests w
     \<and> list_all (fresh [media_folder self, images_folder self] w)
          (drop (length (requests w)) (requests w'))"

text \<open>What every step of a run keeps: the world evolves, by fresh transfers only.\<close>

definition step_ok :: "downloader \<Rightarrow> world \<Rightarrow> world \<Rightarrow> bool" where
  "step_ok self w w' \<longleftrightarrow> evolves w w' \<and> transfers_ok self w w'"

section \<open>The file name as the specification words it\<close>

text \<open>
  The specification's order of the steps: the last segment of the URL path first, then
  the percent-decoding of that segment, then the three steps of \<open>sanitize_filename\<close>.
\<close>

definition spec_derive_filename :: "world \<Rightarrow> string \<Rightarrow> string option" where
  "spec_derive_filename w url =
     map_option
       (\<lambda>path. replace_spaces (strip (filter (\<lambda>c. c \<notin> forbidden_chars) (unquote (basename path)))))
       (urlparse w url)"

section \<open>Enclosures that can be processed\<close>

text \<open>
  The shape of a document: its tags and the names of its attributes, without values
  and texts. An item is \<open>enclosure_ok\<close> when its enclosure, if it has one, has a
  \<open>url\<close> attribute.
\<close>

fun shape :: "element \<Rightarrow> element" where
  "shape (Element t a x cs) = Element t (map (\<lambda>(k, v). (k, [])) a) None (map shape cs)"

definition enclosure_ok :: "element \<Rightarrow> bool" where
  "enclosure_ok item =
     (case find_child ''enclosure'' item of
        None \<Rightarrow> True
      | Some j \<Rightarrow> get_attr (children item ! j) ''url'' \<noteq> None)"

section \<open>Example documents and worlds\<close>

text \<open>
  A feed with a cover in both forms, a build date, a self link and two episodes, as
  \<open>fromstring\<close> returns it for the text \<open>ex_feed_xml\<close>.
\<close>

definition ex_feed_xml :: string where
  "ex_feed_xml =
     ''<rss version='2.0' xmlns:atom='http://www.w3.org/2005/Atom' ''
     @ ''xmlns:itunes='http://www.itunes.com/dtds/podcast-1.0.dtd'><channel>''
     @ ''<title>Show</title><lastBuildDate>Mon, 01 Jan 2024 00:00:00 +0000</lastBuildDate>''
     @ ''<atom:link rel='self' href='http://example.com/feed'/>''
     @ ''<itunes:image href='http://example.com/cover.jpg'/>''
     @ ''<image><url>http://example.com/cover.jpg</url></image>''
     @ ''<item><enclosure url='http://example.com/a.mp3' length='1'/>''
     @ ''<itunes:image href='http://example.com/e1.jpg'/></item>''
     @ ''<item><enclosure url='http://example.com/b.mp3'/></item>''
     @ ''</channel></rss>''"

definition ex_item1 :: element where
  "ex_item1 =
     Element ''item'' [] None
       [Element ''enclosure'' [(''url'', ''http://example.com/a.mp3''), (''length'', ''1'')] None [],
        Element itunes_image [(''href'', ''http://example.com/e1.jpg'')] None []]"

definition ex_item2 :: element where
  "ex_item2 =
     Element ''item'' [] None
       [Element ''enclosure'' [(''url'', ''http://example.com/b.mp3'')] None []]"

definition ex_channel :: element where
  "ex_channel =
     Element ''channel'' [] None
       [Element ''title'' [] (Some ''Show'') [],
        Element ''lastBuildDate'' [] (Some ''Mon, 01 Jan 2024 00:00:00 +0000'') [],
        Element atom_link [(''rel'', ''self''), (''href'', ''http://example.com/feed'')] None [],
        Element itunes_image [(''href'', ''http://example.com/cover.jpg'')] None [],
        Element ''image'' [] None [Element ''url'' [] (Some ''http://example.com/cover.jpg'') []],
        ex_item1,
        ex_item2]"

definition ex_feed :: element where
  "ex_feed = Element ''rss'' [(''version'', ''2.0'')] None [ex_channel]"

text \<open>
  A feed with the cover in the plain form only, no build date, and one episode that
  carries an image.
\<close>

definition ex_plain_xml :: string where
  "ex_plain_xml =
     ''<rss xmlns:itunes='http://www.itunes.com/dtds/podcast-1.0.dtd'><channel>''
     @ ''<image><url>http://example.com/cover.jpg</url></image>''
     @ ''</channel></rss>''"

definition ex_plain :: element where
  "ex_plain =
     Element ''rss'' [] None
       [Element ''channel'' [] None
          [Element ''image'' [] None
             [Element ''url'' [] (Some ''http://example.com/cover.jpg'') []]]]"

text \<open>A channel with no cover of its own, and an episode that has an image.\<close>

definition ex_item3 :: element where
  "ex_item3 =
     Element ''item'' [] None
       [Element ''title'' [] (Some ''Three'') [],
        Element itunes_image [(''href'', ''http://example.com/cover.jpg'')] None []]"

definition ex_episode_cover :: element where
  "ex_episode_cover =
     Element ''channel'' [] None
       [Element ''title'' [] (Some ''Show'') [],
        ex_item2,
        ex_item3]"



text \<open>
  The network: the feed, one file that arrives whole, one whose connection fails, a
  cover that arrives whole, an episode with an escaped name, an image whose transfer
  breaks after two bytes, and a URL that answers 404 with the plain feed as its body.
\<close>

definition ex_network :: "nat \<Rightarrow> string \<Rightarrow> response option" where
  "ex_network n url =
     (if url = ''http://example.com/feed'' then
        Some \<lparr>status_code = 200, content_length = NoHeader, body = [ex_feed_xml], complete = True\<rparr>
      else if url = ''http://example.com/plain'' then
        Some \<lparr>status_code = 200, content_length = NoHeader, body = [ex_plain_xml], complete = True\<rparr>
      else if url = ''http://example.com/gone'' then
        Some \<lparr>status_code = 404, content_length = NoHeader, body = [ex_plain_xml], complete = True\<rparr>
      else if url = ''http://example.com/a.mp3'' then
        Some \<lparr>status_code = 200, content_length = IntHeader 5, body = [''abc'', ''de''],
              complete = True\<rparr>
      else if url = ''http://example.com/cover.jpg'' then
        Some \<lparr>status_code = 200, content_length = NoHeader, body = [''JPEG''], complete = True\<rparr>
      else if url = ''http://example.com/My%20Episode%20%235!.mp3'' then
        Some \<lparr>status_code = 200, content_length = NoHeader, body = [''ID3''], complete = True\<rparr>
      else if url = ''http://example.com/e1.jpg'' then
        Some \<lparr>status_code = 200, content_length = IntHeader 9, body = [''JP''], complete = False\<rparr>
      else None)"

text \<open>A parser and a serialiser that know these documents only.\<close>

definition ex_fromstring :: "string \<Rightarrow> element option" where
  "ex_fromstring s =
     (if s = ex_feed_xml then Some ex_feed
      else if s = ex_plain_xml then Some ex_plain
      else None)"

definition ex_tostring :: "element \<Rightarrow> string" where
  "ex_tostring e = (if e = ex_plain then ex_plain_xml else ''<rss/>'')"

text \<open>The world after \<open>__init__\<close> has made the folders of \<open>out\<close> in \<open>/home/u\<close>.\<close>

definition ex_world :: world where
  "ex_world =
     \<lparr>getcwd = ''/home/u'',
      files = [''/home/u/out'' \<mapsto> Dir, ''/home/u/out/media'' \<mapsto> Dir,
               ''/home/u/out/images'' \<mapsto> Dir],
      dir_size = 4096,
      can_write = (\<lambda>p. True),
      network = ex_network,
      requests = [],
      urlparse = urlparse_path,
      fromstring = ex_fromstring,
      tostring = ex_tostring,
      utcnow = \<lparr>year = 2026, month = 11, day = 4, hour = 7, minute = 5, second = 59\<rparr>\<rparr>"

definition ex_self :: downloader where
  "ex_self =
     \<lparr>output_folder = ''out'', media_folder = ''out/media'', images_folder = ''out/images''\<rparr>"


section \<open>Lemmas: the skeleton\<close>

lemma filter_update_dropped:
  "\<not> P k \<Longrightarrow> filter (\<lambda>(k, v). P k) (AList.update k v al) = filter (\<lambda>(k, v). P k) al"
  by (induction al) auto

lemma skeleton_set_attr: "k \<in> rewritten_attrs \<Longrightarrow> skeleton (set_attr k v e) = skeleton e"
  by (cases e) (simp add: set_attr_def filter_update_dropped)

lemma skeleton_set_text: "tag e \<in> rewritten_texts \<Longrightarrow> skeleton (set_text v e) = skeleton e"
  by (cases e) (simp add: set_text_def)

lemma tag_skeleton: "tag (skeleton e) = tag e"
  by (cases e) simp

lemma children_skeleton: "children (skeleton e) = map skeleton (children e)"
  by (cases e) simp

lemma skeleton_eq_length:
  "skeleton a = skeleton b \<Longrightarrow> length (children a) = length (children b)"
  by (metis children_skeleton length_map)

lemma skeleton_eq_child:
  assumes "skeleton a = skeleton b" "i < length (children a)"
  shows "skeleton (children a ! i) = skeleton (children b ! i)"
proof -
  have "map skeleton (children a) ! i = map skeleton (children b) ! i"
    using assms(1) by (metis children_skeleton)
  with assms skeleton_eq_length[OF assms(1)] show ?thesis by simp
qed

lemma skeleton_eq_tag: "skeleton a = skeleton b \<Longrightarrow> tag a = tag b"
  by (metis tag_skeleton)

lemma skeleton_eq_findall:
  assumes "skeleton a = skeleton b"
  shows "findall t a = findall t b"
proof -
  have len: "length (children a) = length (children b)"
    by (rule skeleton_eq_length[OF assms])
  have "\<And>i. i < length (children a) \<Longrightarrow> tag (children a ! i) = tag (children b ! i)"
    by (rule skeleton_eq_tag, rule skeleton_eq_child[OF assms])
  then show ?thesis
    unfolding findall_def len[symmetric]
    by (intro filter_cong) auto
qed

lemma skeleton_replace_child:
  assumes "i < length (children e) \<Longrightarrow> skeleton y = skeleton (children e ! i)"
  shows "skeleton (Element (tag e) (attrib e) (elem_text e)
            (if i < length (children e) then (children e)[i := y] else children e)) = skeleton e"
proof (cases e)
  case (Element t a x cs)
  show ?thesis
  proof (cases "i < length cs")
    case True
    with assms Element have "skeleton y = skeleton (cs ! i)" by simp
    then have "map skeleton (cs[i := y]) = map skeleton cs"
      using True by (simp add: map_update list_update_same_conv)
    with Element True show ?thesis by simp
  next
    case False
    with Element show ?thesis by simp
  qed
qed

lemma skeleton_update_at:
  assumes "\<And>x. skeleton (f x) = skeleton x"
  shows "skeleton (update_at p f e) = skeleton e"
proof (induction p arbitrary: e)
  case Nil
  show ?case by (simp add: assms)
next
  case (Cons i p)
  show ?case
    unfolding update_at.simps
    by (rule skeleton_replace_child) (rule Cons.IH)
qed

lemma skeleton_update_at_target:
  assumes "\<And>x. get_at p e = Some x \<Longrightarrow> skeleton (f x) = skeleton x"
  shows "skeleton (update_at p f e) = skeleton e"
  using assms
proof (induction p arbitrary: e)
  case Nil
  then show ?case by simp
next
  case (Cons i p)
  show ?case
    unfolding update_at.simps
  proof (rule skeleton_replace_child)
    assume i: "i < length (children e)"
    show "skeleton (update_at p f (children e ! i)) = skeleton (children e ! i)"
      by (rule Cons.IH) (rule Cons.prems, simp add: i)
  qed
qed

lemma skeleton_put_child:
  assumes "i < length (children e) \<Longrightarrow> skeleton y = skeleton (children e ! i)"
  shows "skeleton (update_at [i] (\<lambda>_. y) e) = skeleton e"
proof -
  have "update_at [i] (\<lambda>_. y) e = Element (tag e) (attrib e) (elem_text e)
            (if i < length (children e) then (children e)[i := y] else children e)"
    by simp
  then show ?thesis by (simp only: skeleton_replace_child[OF assms])
qed

lemma find_child_lt: "find_child t e = Some i \<Longrightarrow> i < length (children e) \<and> tag (children e ! i) = t"
proof -
  assume "find_child t e = Some i"
  then have "i \<in> set (findall t e)"
    by (auto simp: find_child_def split: list.splits)
  then show ?thesis by (auto simp: findall_def)
qed

lemma findall_lt: "i \<in> set (findall t e) \<Longrightarrow> i < length (children e) \<and> tag (children e ! i) = t"
  by (auto simp: findall_def)

lemma skeleton_eq_find_child: "skeleton a = skeleton b \<Longrightarrow> find_child t a = find_child t b"
  unfolding find_child_def by (simp only: skeleton_eq_findall[of a b t])


lemma find_grandchild_Some:
  assumes "find_grandchild a b e = Some q"
  shows "\<exists>i j. q = [i, j] \<and> i < length (children e) \<and> tag (children e ! i) = a
           \<and> j < length (children (children e ! i)) \<and> tag (children (children e ! i) ! j) = b"
proof -
  from assms obtain qs where
    "concat (map (\<lambda>i. map (\<lambda>j. [i, j]) (findall b (children e ! i))) (findall a e)) = q # qs"
    by (auto simp: find_grandchild_def split: list.splits)
  then have "q \<in> set (concat (map (\<lambda>i. map (\<lambda>j. [i, j]) (findall b (children e ! i))) (findall a e)))"
    by (metis list.set_intros(1))
  then obtain i j where "q = [i, j]" "i \<in> set (findall a e)" "j \<in> set (findall b (children e ! i))"
    by auto
  then show ?thesis
    by (auto dest: findall_lt)
qed

section \<open>Lemmas: \<open>download_file\<close> and the file system\<close>


lemma evolves_refl: "evolves w w"
  by (simp add: evolves_def)
lemma evolves_trans: "evolves a b \<Longrightarrow> evolves b c \<Longrightarrow> evolves a c"
  by (auto simp: evolves_def intro: map_le_trans)

lemma evolves_exists: "evolves w w' \<Longrightarrow> path_exists w p \<Longrightarrow> path_exists w' p"
  by (auto simp: evolves_def path_exists_def lookup_def map_le_def dom_def)

lemma evolves_getsize: "evolves w w' \<Longrightarrow> getsize w p = Inr n \<Longrightarrow> getsize w' p = Inr n"
  by (auto simp: evolves_def getsize_def lookup_def map_le_def dom_def split: option.splits if_splits node.splits)

lemma download_file_evolves: "download_file w url d = (r, w') \<Longrightarrow> evolves w w'"
  by (auto simp: download_file_def Let_def requests_get_def write_file_def can_open_def
      path_exists_def lookup_def evolves_def map_le_def
      split: option.splits if_splits prod.splits)

lemma download_file_Some:
  assumes "download_file w url d = (Some p, w')"
  shows "\<exists>u fn. url = Some u \<and> u \<noteq> [] \<and> derive_filename w u = Some fn \<and> p = join d fn
           \<and> p \<noteq> [] \<and> path_exists w' p"
  using assms
  by (auto simp: download_file_def Let_def requests_get_def write_file_def can_open_def
      path_exists_def lookup_def split: option.splits if_splits prod.splits)

lemma path_exists_getsize: "path_exists w p \<Longrightarrow> \<exists>n. getsize w p = Inr n"
  by (auto simp: path_exists_def getsize_def split: option.splits node.splits)

lemma download_file_requests:
  assumes "download_file w url d = (r, w')"
  shows "requests w' = requests w
         \<or> (\<exists>u fn. url = Some u \<and> derive_filename w u = Some fn \<and> \<not> path_exists w (join d fn)
               \<and> requests w' = requests w @ [u])"
  using assms
  by (auto simp: download_file_def Let_def requests_get_def write_file_def can_open_def
      split: option.splits if_splits prod.splits)

section \<open>Lemmas: paths\<close>

lemma get_at_update_at_same:
  "get_at p e = Some x \<Longrightarrow> get_at p (update_at p f e) = Some (f x)"
  by (induction p arbitrary: e) (auto split: if_splits)

lemma get_at_append: "get_at (p @ q) e = (case get_at p e of None \<Rightarrow> None | Some x \<Rightarrow> get_at q x)"
  by (induction p arbitrary: e) auto

lemma children_update_at_Cons:
  "children (update_at (i # p) f e) =
     (if i < length (children e) then (children e)[i := update_at p f (children e ! i)] else children e)"
  by simp

lemma tag_update_at_Cons: "tag (update_at (i # p) f e) = tag e"
  by simp

lemma get_at_update_at_other:
  "i \<noteq> j \<Longrightarrow> get_at (i # p) (update_at (j # q) f e) = get_at (i # p) e"
  by auto

lemma length_children_update_at:
  "(\<And>x. length (children (f x)) = length (children x)) \<Longrightarrow>
     length (children (update_at p f e)) = length (children e)"
  by (cases p) auto

section \<open>Lemmas: descendants\<close>

lemma descendants_get_at:
  "(p, d) \<in> set (descendants e) \<Longrightarrow> get_at p e = Some d"
  "(p, d) \<in> set (descendants_from i cs) \<Longrightarrow>
     \<exists>k q. p = (i + k) # q \<and> k < length cs \<and> get_at q (cs ! k) = Some d"
proof (induction e and i cs arbitrary: p d and p d rule: descendants_descendants_from.induct)
  case (1 t a x cs)
  from "1.IH"[OF "1.prems"[simplified]] show ?case by auto
next
  case (2 i)
  then show ?case by simp
next
  case (3 i c cs)
  from "3.prems" consider
      (here) "p = [i]" "d = c"
    | (below) q where "p = i # q" "(q, d) \<in> set (descendants c)"
    | (later) "(p, d) \<in> set (descendants_from (Suc i) cs)"
    by auto
  then show ?case
  proof cases
    case here
    then show ?thesis by (intro exI[of _ 0] exI[of _ "[]"]) simp
  next
    case below
    from "3.IH"(1)[OF below(2)] below(1) show ?thesis
      by (intro exI[of _ 0] exI[of _ q]) simp
  next
    case later
    from "3.IH"(2)[OF later] obtain k q where
      "p = (Suc i + k) # q" "k < length cs" "get_at q (cs ! k) = Some d" by blast
    then show ?thesis by (intro exI[of _ "Suc k"] exI[of _ q]) simp
  qed
qed

lemma find_descendant_Some:
  assumes "find_descendant t e = Some (p, d)"
  shows "get_at p e = Some d \<and> tag d = t"
proof -
  from assms have "(p, d) \<in> set (descendants e)" "tag d = t"
    by (auto simp: find_descendant_def find_Some_iff in_set_conv_nth)
  then show ?thesis by (simp add: descendants_get_at(1))
qed

lemma find_append_cases:
  "List.find P (xs @ ys) = (case List.find P xs of None \<Rightarrow> List.find P ys | Some x \<Rightarrow> Some x)"
  by (induction xs) auto

lemma find_map_shift:
  "List.find (\<lambda>(p, d). tag d = t) (map (\<lambda>(p, d). (i # p, d)) xs)
     = map_option (\<lambda>(p, d). (i # p, d)) (List.find (\<lambda>(p, d). tag d = t) xs)"
  by (induction xs) auto

lemma find_descendants_from:
  assumes "k < length cs"
    and "\<forall>j<k. tag (cs ! j) \<noteq> t \<and> find_descendant t (cs ! j) = None"
    and "tag (cs ! k) \<noteq> t"
    and "find_descendant t (cs ! k) = Some (q, d)"
  shows "List.find (\<lambda>(p, d). tag d = t) (descendants_from i cs) = Some ((i + k) # q, d)"
  using assms
proof (induction cs arbitrary: i k)
  case Nil
  then show ?case by simp
next
  case (Cons c cs)
  show ?case
  proof (cases k)
    case 0
    with Cons.prems show ?thesis
      by (simp add: find_append_cases find_map_shift find_descendant_def)
  next
    case (Suc k')
    with Cons.prems have c: "tag c \<noteq> t" "find_descendant t c = None"
      by auto
    have "List.find (\<lambda>(p, d). tag d = t) (descendants_from (Suc i) cs) = Some ((Suc i + k') # q, d)"
    proof (rule Cons.IH)
      show "k' < length cs" using Cons.prems(1) Suc by simp
      show "\<forall>j<k'. tag (cs ! j) \<noteq> t \<and> find_descendant t (cs ! j) = None"
        using Cons.prems(2) Suc by auto
      show "tag (cs ! k') \<noteq> t" using Cons.prems(3) Suc by simp
      show "find_descendant t (cs ! k') = Some (q, d)" using Cons.prems(4) Suc by simp
    qed
    with c Suc show ?thesis
      by (simp add: find_append_cases find_map_shift find_descendant_def)
  qed
qed

lemma find_descendant_first_child:
  assumes "k < length (children e)"
    and "\<forall>j<k. tag (children e ! j) \<noteq> t \<and> find_descendant t (children e ! j) = None"
    and "tag (children e ! k) \<noteq> t"
    and "find_descendant t (children e ! k) = Some (q, d)"
  shows "find_descendant t e = Some (k # q, d)"
proof (cases e)
  case (Element t' a x cs)
  with find_descendants_from[of k cs t q d 0] assms show ?thesis
    by (simp add: find_descendant_def)
qed

section \<open>Lemmas: the steps of a run and the world\<close>

lemma transfers_okI:
  "requests w' = requests w @ new \<Longrightarrow> list_all (fresh [media_folder self, images_folder self] w) new
     \<Longrightarrow> transfers_ok self w w'"
  by (simp add: transfers_ok_def)

lemma transfers_okD:
  "transfers_ok self w w' \<Longrightarrow>
     \<exists>new. requests w' = requests w @ new \<and> list_all (fresh [media_folder self, images_folder self] w) new"
  unfolding transfers_ok_def
  by (metis append_take_drop_id)

lemma evolves_derive_filename: "evolves w w' \<Longrightarrow> derive_filename w' u = derive_filename w u"
  by (simp add: derive_filename_def evolves_def)

lemma fresh_antimono: "evolves w w' \<Longrightarrow> fresh ds w' u \<Longrightarrow> fresh ds w u"
  by (auto simp: fresh_def list_ex_iff evolves_derive_filename split: option.splits
      dest: evolves_exists)

lemma transfers_ok_refl: "transfers_ok self w w"
  by (simp add: transfers_ok_def)

lemma transfers_ok_trans:
  assumes "transfers_ok self a b" "evolves a b" "transfers_ok self b c"
  shows "transfers_ok self a c"
proof -
  from transfers_okD[OF assms(1)] obtain n1 where
    1: "requests b = requests a @ n1" "list_all (fresh [media_folder self, images_folder self] a) n1"
    by blast
  from transfers_okD[OF assms(3)] obtain n2 where
    2: "requests c = requests b @ n2" "list_all (fresh [media_folder self, images_folder self] b) n2"
    by blast
  from 2(2) have "list_all (fresh [media_folder self, images_folder self] a) n2"
    by (auto simp: list_all_iff intro: fresh_antimono[OF assms(2)])
  with 1 2(1) show ?thesis
    by (intro transfers_okI[of _ _ "n1 @ n2"]) simp_all
qed

lemma download_file_transfers:
  assumes "download_file w url d = (r, w')" "d \<in> {media_folder self, images_folder self}"
  shows "transfers_ok self w w'"
proof -
  from download_file_requests[OF assms(1)] show ?thesis
  proof
    assume "requests w' = requests w"
    then show ?thesis by (simp add: transfers_ok_def)
  next
    assume "\<exists>u fn. url = Some u \<and> derive_filename w u = Some fn \<and> \<not> path_exists w (join d fn)
               \<and> requests w' = requests w @ [u]"
    then obtain u fn where "derive_filename w u = Some fn" "\<not> path_exists w (join d fn)"
      "requests w' = requests w @ [u]" by blast
    with assms(2) show ?thesis
      by (intro transfers_okI[of _ _ "[u]"]) (auto simp: fresh_def)
  qed
qed

lemma step_ok_refl: "step_ok self w w"
  by (simp add: step_ok_def evolves_refl transfers_ok_refl)

lemma step_ok_trans: "step_ok self a b \<Longrightarrow> step_ok self b c \<Longrightarrow> step_ok self a c"
  unfolding step_ok_def by (blast intro: evolves_trans transfers_ok_trans)

lemma download_file_step_ok:
  "download_file w url d = (r, w') \<Longrightarrow> d \<in> {media_folder self, images_folder self}
     \<Longrightarrow> step_ok self w w'"
  by (simp add: step_ok_def download_file_evolves download_file_transfers)

lemma process_cover_step_ok:
  "process_cover self channel w = (channel', w') \<Longrightarrow> step_ok self w w'"
  by (auto simp: process_cover_def Let_def step_ok_refl
      split: option.splits prod.splits if_splits
      intro: download_file_step_ok[where d = "images_folder self"])

lemma process_enclosure_step_ok:
  "process_enclosure self item w = (r, w') \<Longrightarrow> step_ok self w w'"
  by (auto simp: process_enclosure_def Let_def step_ok_refl
      split: option.splits prod.splits if_splits sum.splits
      intro: download_file_step_ok[where d = "media_folder self"])

lemma process_episode_image_step_ok:
  "process_episode_image self item w = (item', w') \<Longrightarrow> step_ok self w w'"
  by (auto simp: process_episode_image_def Let_def step_ok_refl
      split: option.splits prod.splits if_splits
      intro: download_file_step_ok[where d = "images_folder self"])

lemma process_item_step_ok:
  "process_item self item w = (r, w') \<Longrightarrow> step_ok self w w'"
  by (auto simp: process_item_def split: prod.splits sum.splits
      intro: step_ok_trans process_enclosure_step_ok process_episode_image_step_ok)

lemma process_items_step_ok:
  "process_items self items channel w = (r, w') \<Longrightarrow> step_ok self w w'"
proof (induction items arbitrary: channel w)
  case Nil
  then show ?case by (simp add: step_ok_refl)
next
  case (Cons i items)
  then show ?case
    by (auto split: prod.splits sum.splits intro: step_ok_trans process_item_step_ok)
qed

section \<open>Lemmas: a run keeps the skeleton\<close>

lemma rewritten_attrs_simps [simp]:
  "''url'' \<in> rewritten_attrs" "''length'' \<in> rewritten_attrs" "''href'' \<in> rewritten_attrs"
  by (simp_all add: rewritten_attrs_def)

declare update_at.simps [simp del]

lemma skeleton_update_attr:
  "k \<in> rewritten_attrs \<Longrightarrow> skeleton (update_at p (set_attr k v) e) = skeleton e"
  by (rule skeleton_update_at) (rule skeleton_set_attr)

lemma skeleton_update_url_text:
  assumes "find_grandchild a ''url'' e = Some q"
  shows "skeleton (update_at q (set_text v) e) = skeleton e"
proof (rule skeleton_update_at_target)
  fix x assume x: "get_at q e = Some x"
  from find_grandchild_Some[OF assms] x have "tag x = ''url''"
    by auto
  then show "skeleton (set_text v x) = skeleton x"
    by (simp add: skeleton_set_text rewritten_texts_def)
qed

lemma skeleton_update_build_text:
  assumes "find_child ''lastBuildDate'' e = Some i"
  shows "skeleton (update_at [i] (set_text v) e) = skeleton e"
proof (rule skeleton_update_at_target)
  fix x assume x: "get_at [i] e = Some x"
  from find_child_lt[OF assms] x have "tag x = ''lastBuildDate''"
    by auto
  then show "skeleton (set_text v x) = skeleton x"
    by (simp add: skeleton_set_text rewritten_texts_def)
qed

lemma process_cover_skeleton:
  "process_cover self channel w = (channel', w') \<Longrightarrow> skeleton channel' = skeleton channel"
  by (auto simp: process_cover_def Let_def skeleton_update_attr skeleton_update_url_text
      split: option.splits prod.splits if_splits)

lemma process_enclosure_skeleton:
  "process_enclosure self item w = (Inr item', w') \<Longrightarrow> skeleton item' = skeleton item"
  by (auto simp: process_enclosure_def Let_def skeleton_update_attr
      split: option.splits prod.splits if_splits sum.splits)

lemma process_episode_image_skeleton:
  "process_episode_image self item w = (item', w') \<Longrightarrow> skeleton item' = skeleton item"
  by (auto simp: process_episode_image_def Let_def skeleton_update_attr
      split: option.splits prod.splits if_splits)

lemma process_item_skeleton:
  "process_item self item w = (Inr item', w') \<Longrightarrow> skeleton item' = skeleton item"
  by (auto simp: process_item_def split: prod.splits sum.splits
      dest!: process_enclosure_skeleton process_episode_image_skeleton)

lemma process_items_skeleton:
  "process_items self items channel w = (Inr channel', w') \<Longrightarrow> skeleton channel' = skeleton channel"
proof (induction items arbitrary: channel w)
  case Nil
  then show ?case by simp
next
  case (Cons i items)
  from Cons.prems obtain item w1 where
    item: "process_item self (children channel ! i) w = (Inr item, w1)"
    and rest: "process_items self items (update_at [i] (\<lambda>_. item) channel) w1 = (Inr channel', w')"
    by (auto split: prod.splits sum.splits)
  have "skeleton channel' = skeleton (update_at [i] (\<lambda>_. item) channel)"
    by (rule Cons.IH[OF rest])
  also have "\<dots> = skeleton channel"
    by (rule skeleton_put_child) (rule process_item_skeleton[OF item])
  finally show ?case .
qed

lemma update_link_skeleton: "skeleton (update_link channel i) = skeleton channel"
  by (simp add: update_link_def skeleton_update_attr)

lemma foldl_update_link_skeleton: "skeleton (foldl update_link channel is) = skeleton channel"
  by (induction "is" arbitrary: channel) (simp_all add: update_link_skeleton)

lemma update_feed_metadata_skeleton: "skeleton (update_feed_metadata w channel) = skeleton channel"
  by (simp add: update_feed_metadata_def Let_def foldl_update_link_skeleton
      skeleton_update_build_text split: option.splits)

lemma process_tree_Inr:
  assumes "process_tree self root w = (Inr root', w')"
  obtains c channel1 w1 channel2 w2 where
    "find_child ''channel'' root = Some c"
    "process_cover self (children root ! c) w = (channel1, w1)"
    "process_items self (findall ''item'' channel1) channel1 w1 = (Inr channel2, w2)"
    "root' = update_at [c] (\<lambda>_. update_feed_metadata w2 channel2) root"
    "can_open w2 (join (output_folder self) ''feed.xml'')"
    "w' = write_file w2 (join (output_folder self) ''feed.xml'') (tostring w2 root')"
proof -
  from assms obtain c where c: "find_child ''channel'' root = Some c"
    by (auto simp: process_tree_def split: option.splits)
  obtain channel1 w1 where cover: "process_cover self (children root ! c) w = (channel1, w1)"
    by (cases "process_cover self (children root ! c) w")
  obtain r w2 where items: "process_items self (findall ''item'' channel1) channel1 w1 = (r, w2)"
    by (cases "process_items self (findall ''item'' channel1) channel1 w1")
  from assms c cover items obtain channel2 where r: "r = Inr channel2"
    by (cases r) (simp_all add: process_tree_def)
  from assms c cover items r show ?thesis
    by (intro that[of c channel1 w1 channel2 w2])
       (auto simp: process_tree_def Let_def split: if_splits)
qed

lemma process_tree_skeleton:
  assumes "process_tree self root w = (Inr root', w')"
  shows "skeleton root' = skeleton root"
proof -
  from assms obtain c channel1 w1 channel2 w2 where
    c: "find_child ''channel'' root = Some c"
    and cover: "process_cover self (children root ! c) w = (channel1, w1)"
    and items: "process_items self (findall ''item'' channel1) channel1 w1 = (Inr channel2, w2)"
    and root': "root' = update_at [c] (\<lambda>_. update_feed_metadata w2 channel2) root"
    by (rule process_tree_Inr)
  have "skeleton (update_feed_metadata w2 channel2) = skeleton (children root ! c)"
    using process_cover_skeleton[OF cover] process_items_skeleton[OF items]
    by (simp add: update_feed_metadata_skeleton)
  then show ?thesis
    unfolding root' by (intro skeleton_put_child)
qed

lemma skeleton_eq_items_of:
  assumes "skeleton a = skeleton b"
  shows "map skeleton (items_of a) = map skeleton (items_of b)"
proof (cases "find_child ''channel'' b")
  case None
  then show ?thesis
    by (simp add: items_of_def skeleton_eq_find_child[OF assms])
next
  case (Some c)
  have c: "c < length (children a)"
    using find_child_lt[OF Some] skeleton_eq_length[OF assms] by simp
  have ch: "skeleton (children a ! c) = skeleton (children b ! c)"
    by (rule skeleton_eq_child[OF assms c])
  have "\<And>i. i \<in> set (findall ''item'' (children b ! c)) \<Longrightarrow>
          skeleton (children (children a ! c) ! i) = skeleton (children (children b ! c) ! i)"
    using skeleton_eq_length[OF ch] by (intro skeleton_eq_child[OF ch]) (simp add: findall_def)
  then show ?thesis
    by (simp add: items_of_def skeleton_eq_find_child[OF assms] Some skeleton_eq_findall[OF ch])
qed

section \<open>Lemmas: the last segment of a path\<close>

lemma takeWhile_no_slash:
  "CHR ''/'' \<notin> set s \<Longrightarrow> takeWhile (\<lambda>c. c \<noteq> CHR ''/'') (rev s) = rev s"
  by (intro takeWhile_eq_all_conv[THEN iffD2]) auto

lemma basename_no_slash: "CHR ''/'' \<notin> set s \<Longrightarrow> basename s = s"
  by (simp add: basename_def takeWhile_no_slash del: takeWhile_eq_all_conv)

lemma basename_append_slash: "basename (a @ CHR ''/'' # s) = basename s"
proof -
  have r: "rev (a @ CHR ''/'' # s) = rev s @ CHR ''/'' # rev a"
    by simp
  have "takeWhile (\<lambda>c. c \<noteq> CHR ''/'') (rev s @ CHR ''/'' # rev a)
      = takeWhile (\<lambda>c. c \<noteq> CHR ''/'') (rev s)"
  proof (cases "CHR ''/'' \<in> set s")
    case True
    then show ?thesis
      by (intro takeWhile_append1[of "CHR ''/''"]) simp_all
  next
    case False
    then have "takeWhile (\<lambda>c. c \<noteq> CHR ''/'') (rev s @ CHR ''/'' # rev a)
        = rev s @ takeWhile (\<lambda>c. c \<noteq> CHR ''/'') (CHR ''/'' # rev a)"
      by (intro takeWhile_append2) auto
    also have "\<dots> = rev s"
      by simp
    finally show ?thesis
      by (simp only: takeWhile_no_slash[OF False])
  qed
  then show ?thesis
    unfolding basename_def r by (rule arg_cong)
qed

lemma split_last_slash:
  "CHR ''/'' \<in> set p \<Longrightarrow> \<exists>a. p = a @ CHR ''/'' # basename p"
proof -
  assume "CHR ''/'' \<in> set p"
  then have "CHR ''/'' \<in> set (rev p)" by simp
  then obtain ys zs where "rev p = ys @ CHR ''/'' # zs" "CHR ''/'' \<notin> set ys"
    by (meson split_list_first)
  then have "p = rev zs @ CHR ''/'' # rev ys" "basename p = rev ys"
    by (auto simp: basename_def takeWhile_append rev_swap dest: arg_cong[where f = rev])
  then show ?thesis by auto
qed

section \<open>Lemmas: attributes, texts and decimal numerals\<close>

lemma of_char_digit_char: "d < 10 \<Longrightarrow> (of_char (digit_char d) :: nat) = 48 + d"
  by (simp add: digit_char_def)

lemma int_of_str_snoc: "int_of_str (s @ [c]) = 10 * int_of_str s + (of_char c - 48)"
  by (simp add: int_of_str_def)

lemma int_of_str_str_nat: "int_of_str (str_nat n) = n"
proof (induction n rule: str_nat.induct)
  case (1 n)
  show ?case
  proof (cases "n < 10")
    case True
    then show ?thesis
      by (subst str_nat.simps) (simp add: int_of_str_def of_char_digit_char)
  next
    case False
    with "1.IH" have "int_of_str (str_nat (n div 10)) = n div 10" by simp
    with False show ?thesis
      by (subst str_nat.simps) (simp add: int_of_str_snoc of_char_digit_char)
  qed
qed

lemma child_update_at:
  "j < length (children e) \<Longrightarrow> children (update_at [j] f e) ! j = f (children e ! j)"
  by (simp add: update_at.simps)

lemma child_update_at_other:
  "i \<noteq> j \<Longrightarrow> children (update_at (j # p) f e) ! i = children e ! i"
  by (simp add: update_at.simps)

lemma length_children_update_at_Cons [simp]:
  "length (children (update_at (j # p) f e)) = length (children e)"
  by (simp add: update_at.simps)

lemma get_attr_set_attr: "get_attr (set_attr k v e) k' = (if k' = k then Some v else get_attr e k')"
  by (simp add: get_attr_def set_attr_def update_conv')

lemma children_set_attr [simp]: "children (set_attr k v e) = children e"
  by (simp add: set_attr_def)

lemma tag_set_attr [simp]: "tag (set_attr k v e) = tag e"
  by (simp add: set_attr_def)

lemma children_set_text [simp]: "children (set_text v e) = children e"
  by (simp add: set_text_def)

lemma tag_set_text [simp]: "tag (set_text v e) = tag e"
  by (simp add: set_text_def)

lemma elem_text_set_text [simp]: "elem_text (set_text v e) = Some v"
  by (simp add: set_text_def)

lemma get_attr_set_text [simp]: "get_attr (set_text v e) k = get_attr e k"
  by (simp add: set_text_def get_attr_def)

lemma elem_text_set_attr [simp]: "elem_text (set_attr k v e) = elem_text e"
  by (simp add: set_attr_def)

section \<open>Lemmas: what aborts an item\<close>

lemma process_enclosure_Inl:
  assumes "process_enclosure self item w = (Inl e, w')"
  shows "e = TypeError \<and> w' = w
         \<and> (\<exists>j. find_child ''enclosure'' item = Some j \<and> get_attr (children item ! j) ''url'' = None)"
proof -
  from assms obtain j where j: "find_child ''enclosure'' item = Some j"
    by (auto simp: process_enclosure_def split: option.splits)
  show ?thesis
  proof (cases "get_attr (children item ! j) ''url''")
    case None
    with assms j show ?thesis
      by (simp add: process_enclosure_def)
  next
    case (Some u)
    obtain r w1 where d: "download_file w (Some u) (media_folder self) = (r, w1)"
      by (cases "download_file w (Some u) (media_folder self)")
    show ?thesis
    proof (cases r)
      case None
      with assms j Some d show ?thesis
        by (simp add: process_enclosure_def)
    next
      case (Some audio_path)
      with d download_file_Some[of w "Some u" "media_folder self" audio_path w1]
      have ne: "audio_path \<noteq> []" and ex: "path_exists w1 audio_path"
        by auto
      from path_exists_getsize[OF ex] obtain n where "getsize w1 audio_path = Inr n" ..
      with assms j \<open>get_attr (children item ! j) ''url'' = Some u\<close> d Some ne show ?thesis
        by (simp add: process_enclosure_def Let_def)
    qed
  qed
qed

lemma process_item_Inl:
  assumes "process_item self item w = (Inl e, w')"
  shows "e = TypeError
         \<and> (\<exists>j. find_child ''enclosure'' item = Some j \<and> get_attr (children item ! j) ''url'' = None)"
proof -
  from assms have "process_enclosure self item w = (Inl e, w')"
    by (auto simp: process_item_def split: prod.splits sum.splits)
  from process_enclosure_Inl[OF this] show ?thesis
    by simp
qed


section \<open>Lemmas: the shape and the completion of a run\<close>

lemma map_keys_update:
  "k \<in> fst ` set al \<Longrightarrow>
     map (\<lambda>(k, v). (k, [])) (AList.update k v al) = map (\<lambda>(k, v). (k, [])) al"
  by (induction al) auto

lemma shape_set_attr: "get_attr e k \<noteq> None \<Longrightarrow> shape (set_attr k v e) = shape e"
  by (cases e) (auto simp: set_attr_def get_attr_def map_keys_update map_of_eq_None_iff)

lemma shape_set_text: "shape (set_text v e) = shape e"
  by (cases e) (simp add: set_text_def)

lemma tag_shape: "tag (shape e) = tag e"
  by (cases e) simp

lemma children_shape: "children (shape e) = map shape (children e)"
  by (cases e) simp

lemma keys_shape: "fst ` set (attrib (shape e)) = fst ` set (attrib e)"
  by (cases e) force

lemma shape_eq_length: "shape a = shape b \<Longrightarrow> length (children a) = length (children b)"
  by (metis children_shape length_map)

lemma shape_eq_child:
  assumes "shape a = shape b" "i < length (children a)"
  shows "shape (children a ! i) = shape (children b ! i)"
proof -
  have "map shape (children a) ! i = map shape (children b) ! i"
    using assms(1) by (metis children_shape)
  with assms shape_eq_length[OF assms(1)] show ?thesis by simp
qed

lemma shape_eq_findall:
  assumes "shape a = shape b"
  shows "findall t a = findall t b"
proof -
  have len: "length (children a) = length (children b)"
    by (rule shape_eq_length[OF assms])
  have "\<And>i. i < length (children a) \<Longrightarrow> tag (children a ! i) = tag (children b ! i)"
    by (metis tag_shape shape_eq_child[OF assms])
  then show ?thesis
    unfolding findall_def len[symmetric]
    by (intro filter_cong) auto
qed

lemma shape_eq_has_attr:
  assumes "shape a = shape b"
  shows "get_attr a k \<noteq> None \<longleftrightarrow> get_attr b k \<noteq> None"
proof -
  have "fst ` set (attrib a) = fst ` set (attrib b)"
    by (metis assms keys_shape)
  then show ?thesis
    by (simp add: get_attr_def map_of_eq_None_iff)
qed

lemma shape_eq_enclosure_ok:
  assumes "shape a = shape b"
  shows "enclosure_ok a = enclosure_ok b"
proof (cases "find_child ''enclosure'' b")
  case None
  then show ?thesis
    by (simp add: enclosure_ok_def find_child_def shape_eq_findall[OF assms])
next
  case (Some j)
  then have "j < length (children a)"
    using find_child_lt[OF Some] shape_eq_length[OF assms] by simp
  from shape_eq_has_attr[OF shape_eq_child[OF assms this], of "''url''"] Some show ?thesis
    by (simp add: enclosure_ok_def find_child_def shape_eq_findall[OF assms])
qed

lemma shape_replace_child:
  assumes "i < length (children e) \<Longrightarrow> shape y = shape (children e ! i)"
  shows "shape (Element (tag e) (attrib e) (elem_text e)
            (if i < length (children e) then (children e)[i := y] else children e)) = shape e"
proof (cases e)
  case (Element t a x cs)
  show ?thesis
  proof (cases "i < length cs")
    case True
    with assms Element have "shape y = shape (cs ! i)" by simp
    then have "map shape (cs[i := y]) = map shape cs"
      using True by (simp add: map_update list_update_same_conv)
    with Element True show ?thesis by simp
  next
    case False
    with Element show ?thesis by simp
  qed
qed

lemma shape_update_at:
  assumes "\<And>x. get_at p e = Some x \<Longrightarrow> shape (f x) = shape x"
  shows "shape (update_at p f e) = shape e"
  using assms
proof (induction p arbitrary: e)
  case Nil
  then show ?case by (simp add: update_at.simps)
next
  case (Cons i p)
  show ?case
    unfolding update_at.simps
  proof (rule shape_replace_child)
    assume i: "i < length (children e)"
    show "shape (update_at p f (children e ! i)) = shape (children e ! i)"
    proof (rule Cons.IH)
      fix x
      assume "get_at p (children e ! i) = Some x"
      with i have "get_at (i # p) e = Some x" by simp
      then show "shape (f x) = shape x" by (rule Cons.prems)
    qed
  qed
qed

lemma process_cover_shape:
  assumes "process_cover self channel w = (channel', w')"
  shows "shape channel' = shape channel"
proof (cases "find_descendant itunes_image channel")
  case None
  with assms show ?thesis by (simp add: process_cover_def)
next
  case (Some found)
  obtain p cover where found: "found = (p, cover)" by (cases found)
  obtain r w1 where d: "download_file w (get_attr cover ''href'') (images_folder self) = (r, w1)"
    by (cases "download_file w (get_attr cover ''href'') (images_folder self)")
  show ?thesis
  proof (cases r)
    case None
    with assms Some found d show ?thesis by (simp add: process_cover_def)
  next
    case (Some image_path)
    with d download_file_Some[of w "get_attr cover ''href''" "images_folder self" image_path w1]
    have href: "get_attr cover ''href'' \<noteq> None" by auto
    have at: "get_at p channel = Some cover"
      using find_descendant_Some \<open>find_descendant itunes_image channel = Some found\<close> found by blast
    have 1: "shape (update_at p (set_attr ''href'' v) channel) = shape channel" for v
      by (rule shape_update_at) (use at href in \<open>auto simp: shape_set_attr\<close>)
    have 2: "shape (update_at q (set_text v) e) = shape e" for q v e
      by (rule shape_update_at) (simp add: shape_set_text)
    from assms \<open>find_descendant itunes_image channel = Some found\<close> found d Some show ?thesis
      by (auto simp: process_cover_def Let_def 1 2 split: option.splits if_splits)
  qed
qed

lemma process_items_completes:
  assumes "distinct items" "\<forall>i\<in>set items. enclosure_ok (children channel ! i)"
  shows "\<exists>channel' w'. process_items self items channel w = (Inr channel', w')"
  using assms
proof (induction items arbitrary: channel w)
  case Nil
  then show ?case by simp
next
  case (Cons i items)
  obtain r w1 where step: "process_item self (children channel ! i) w = (r, w1)"
    by (cases "process_item self (children channel ! i) w")
  have "\<not> isl r"
  proof
    assume "isl r"
    then obtain e where "r = Inl e" by (cases r) simp_all
    with step process_item_Inl[of self "children channel ! i" w e w1] Cons.prems(2)
    show False by (auto simp: enclosure_ok_def)
  qed
  then obtain item where r: "r = Inr item" by (cases r) simp_all
  let ?channel = "update_at [i] (\<lambda>_. item) channel"
  have "\<forall>k\<in>set items. enclosure_ok (children ?channel ! k)"
  proof
    fix k assume k: "k \<in> set items"
    with Cons.prems(1) have "k \<noteq> i" by auto
    then have "children ?channel ! k = children channel ! k"
      by (rule child_update_at_other)
    with Cons.prems(2) k show "enclosure_ok (children ?channel ! k)" by simp
  qed
  with Cons.IH[of ?channel w1] Cons.prems(1) obtain channel' w' where
    "process_items self items ?channel w1 = (Inr channel', w')" by auto
  with step r show ?case by simp
qed

lemma distinct_findall: "distinct (findall t e)"
  by (simp add: findall_def)

lemma step_ok_can_write: "step_ok self w w' \<Longrightarrow> can_write w' = can_write w"
  by (simp add: step_ok_def evolves_def)

lemma process_tree_completes:
  assumes "find_child ''channel'' root = Some c"
    and "\<forall>i\<in>set (findall ''item'' (children root ! c)). enclosure_ok (children (children root ! c) ! i)"
    and "can_write w (join (output_folder self) ''feed.xml'')"
  shows "\<exists>root' w'. process_tree self root w = (Inr root', w')"
proof -
  obtain channel1 w1 where cover: "process_cover self (children root ! c) w = (channel1, w1)"
    by (cases "process_cover self (children root ! c) w")
  have sh: "shape channel1 = shape (children root ! c)"
    by (rule process_cover_shape[OF cover])
  have "\<forall>i\<in>set (findall ''item'' channel1). enclosure_ok (children channel1 ! i)"
  proof
    fix i assume i: "i \<in> set (findall ''item'' channel1)"
    then have "i < length (children channel1)" by (simp add: findall_def)
    from shape_eq_enclosure_ok[OF shape_eq_child[OF sh this]] i assms(2) shape_eq_findall[OF sh]
    show "enclosure_ok (children channel1 ! i)" by simp
  qed
  from process_items_completes[OF distinct_findall this] obtain channel2 w2 where
    items: "process_items self (findall ''item'' channel1) channel1 w1 = (Inr channel2, w2)"
    by blast
  have "can_write w2 = can_write w"
    using step_ok_can_write[OF process_cover_step_ok[OF cover]]
      step_ok_can_write[OF process_items_step_ok[OF items]] by simp
  with assms(3) have "can_open w2 (join (output_folder self) ''feed.xml'')"
    by (auto simp: can_open_def join_def)
  with assms(1) cover items show ?thesis
    by (simp add: process_tree_def Let_def)
qed

lemma requests_get_evolves: "requests_get w url = (r, w1) \<Longrightarrow> evolves w w1"
  by (auto simp: requests_get_def evolves_def)

lemma fetch_feed_world:
  assumes "fetch_feed w rss_url = (r, w1)"
  shows "evolves w w1 \<and> files w1 = files w \<and> requests w1 = requests w @ [rss_url]"
  using assms
  by (auto simp: fetch_feed_def requests_get_def evolves_def split: option.splits if_splits)




section \<open>Lemmas: trimming\<close>

lemma whitespace_nonempty: "[] \<notin> set whitespace"
  by (simp add: whitespace_def)

lemma find_Some_mem: "List.find P xs = Some x \<Longrightarrow> x \<in> set xs \<and> P x"
  by (induction xs) (auto split: if_splits)

lemma match_len_0_iff:
  assumes "[] \<notin> set ws"
  shows "match_len ws s = 0 \<longleftrightarrow> (\<forall>w\<in>set ws. take (length w) s \<noteq> w)"
proof (cases "List.find (\<lambda>w. take (length w) s = w) ws")
  case None
  have "match_len ws s = 0"
    by (simp only: match_len_def None option.case)
  moreover from None have "\<forall>w\<in>set ws. take (length w) s \<noteq> w"
    by (simp add: find_None_iff)
  ultimately show ?thesis
    by blast
next
  case (Some w)
  from find_Some_mem[OF Some] have w: "w \<in> set ws" "take (length w) s = w"
    by simp_all
  with assms have "w \<noteq> []"
    by auto
  with Some w show ?thesis
    by (auto simp: match_len_def)
qed

lemma match_len_Some:
  assumes "match_len ws s \<noteq> 0"
  shows "\<exists>w\<in>set ws. s = w @ drop (match_len ws s) s"
proof -
  from assms obtain w where w: "List.find (\<lambda>w. take (length w) s = w) ws = Some w"
    by (auto simp: match_len_def split: option.splits)
  from find_Some_mem[OF w] have mem: "w \<in> set ws" and tk: "take (length w) s = w"
    by simp_all
  from w have len: "match_len ws s = length w"
    by (simp add: match_len_def)
  have "s = take (length w) s @ drop (length w) s"
    by simp
  then have "s = w @ drop (match_len ws s) s"
    unfolding len tk .
  with mem show ?thesis
    by blast
qed

lemma drop_matches_split:
  "\<exists>pre. s = concat pre @ drop_matches ws s \<and> set pre \<subseteq> set ws
         \<and> match_len ws (drop_matches ws s) = 0"
proof (induction ws s rule: drop_matches.induct)
  case (1 ws s)
  show ?case
  proof (cases "match_len ws s = 0")
    case True
    then show ?thesis
      by (intro exI[of _ "[]"]) (simp add: drop_matches.simps)
  next
    case False
    from match_len_Some[OF False] obtain w where
      w: "w \<in> set ws" "s = w @ drop (match_len ws s) s" by blast
    from "1.IH"[OF False] obtain pre where
      pre: "drop (match_len ws s) s = concat pre @ drop_matches ws (drop (match_len ws s) s)"
      "set pre \<subseteq> set ws"
      "match_len ws (drop_matches ws (drop (match_len ws s) s)) = 0"
      by blast
    have eq: "drop_matches ws s = drop_matches ws (drop (match_len ws s) s)"
      using False by (subst drop_matches.simps) simp
    have "s = w @ concat pre @ drop_matches ws (drop (match_len ws s) s)"
      using w(2) pre(1) by simp
    then have "s = concat (w # pre) @ drop_matches ws s"
      unfolding eq by simp
    with w(1) pre(2,3) eq show ?thesis
      by (intro exI[of _ "w # pre"]) simp
  qed
qed

lemma rev_concat_map_rev: "rev (concat xs) = concat (map rev (rev xs))"
  by (induction xs) auto

lemma strip_split:
  "\<exists>pre suf.
     s = concat pre @ strip s @ concat suf \<and> set pre \<subseteq> set whitespace
     \<and> set suf \<subseteq> set whitespace
     \<and> (\<forall>sp\<in>set whitespace.
           take (length sp) (strip s) \<noteq> sp
           \<and> drop (length (strip s) - length sp) (strip s) \<noteq> sp)"
proof -
  let ?l = "lstrip s"
  from drop_matches_split[of s whitespace] obtain pre where
    pre: "s = concat pre @ ?l" "set pre \<subseteq> set whitespace" "match_len whitespace ?l = 0"
    unfolding lstrip_def by blast
  let ?t = "drop_matches (map rev whitespace) (rev ?l)"
  from drop_matches_split[of "rev ?l" "map rev whitespace"] obtain suf' where
    suf': "rev ?l = concat suf' @ ?t" "set suf' \<subseteq> set (map rev whitespace)"
    "match_len (map rev whitespace) ?t = 0"
    by blast
  have core: "strip s = rev ?t"
    by (simp add: strip_def rstrip_def)
  let ?suf = "map rev (rev suf')"
  have l: "?l = rev ?t @ concat ?suf"
  proof -
    have "rev (rev ?l) = rev (concat suf' @ ?t)"
      by (simp only: suf'(1)[symmetric])
    then show ?thesis
      by (simp add: rev_concat_map_rev)
  qed
  have suf: "set ?suf \<subseteq> set whitespace"
  proof
    fix x assume "x \<in> set ?suf"
    then obtain y where y: "y \<in> set suf'" "x = rev y"
      by auto
    with suf'(2) obtain z where "z \<in> set whitespace" "y = rev z"
      by auto
    with y show "x \<in> set whitespace"
      by simp
  qed
  have nonempty: "[] \<notin> set (map rev whitespace)"
    using whitespace_nonempty by auto
  have no_end: "\<forall>sp\<in>set whitespace. drop (length (rev ?t) - length sp) (rev ?t) \<noteq> sp"
  proof
    fix sp assume sp: "sp \<in> set whitespace"
    then have "rev sp \<in> set (map rev whitespace)"
      by simp
    with suf'(3) match_len_0_iff[OF nonempty, of ?t]
    have ne: "take (length (rev sp)) ?t \<noteq> rev sp"
      by blast
    have "rev (take (length sp) ?t) \<noteq> sp"
    proof
      assume "rev (take (length sp) ?t) = sp"
      then have "rev (rev (take (length sp) ?t)) = rev sp"
        by (rule arg_cong)
      then have "take (length (rev sp)) ?t = rev sp"
        by simp
      with ne show False ..
    qed
    then show "drop (length (rev ?t) - length sp) (rev ?t) \<noteq> sp"
      by (simp add: rev_take)
  qed
  have no_start: "\<forall>sp\<in>set whitespace. take (length sp) (rev ?t) \<noteq> sp"
  proof
    fix sp assume sp: "sp \<in> set whitespace"
    show "take (length sp) (rev ?t) \<noteq> sp"
    proof
      assume eq: "take (length sp) (rev ?t) = sp"
      have "length (take (length sp) (rev ?t)) = length sp"
        by (simp only: eq)
      then have "length sp \<le> length (rev ?t)"
        by simp
      then have "take (length sp) (rev ?t @ concat ?suf) = sp"
        using eq by simp
      then have "take (length sp) ?l = sp"
        by (simp only: l[symmetric])
      moreover have "take (length sp) ?l \<noteq> sp"
        using pre(3) sp match_len_0_iff[OF whitespace_nonempty, of ?l] by blast
      ultimately show False by simp
    qed
  qed
  have "s = concat pre @ strip s @ concat ?suf"
    using pre(1) l core by simp
  with pre(2) suf no_start no_end core show ?thesis
    by (intro exI[of _ pre] exI[of _ ?suf]) simp
qed

lemma basename_split:
  "\<exists>dir. p = dir @ basename p \<and> CHR ''/'' \<notin> set (basename p) \<and> (dir = [] \<or> last dir = CHR ''/'')"
proof (cases "CHR ''/'' \<in> set p")
  case True
  from split_last_slash[OF True] obtain a where a: "p = a @ CHR ''/'' # basename p" ..
  have "CHR ''/'' \<notin> set (basename p)"
    unfolding basename_def by (auto dest: set_takeWhileD)
  with a show ?thesis
    by (intro exI[of _ "a @ [CHR ''/'']"]) simp
next
  case False
  then show ?thesis
    by (intro exI[of _ "[]"]) (simp add: basename_no_slash)
qed


lemma itunes_image_not_item [simp]: "itunes_image \<noteq> ''item''" "''item'' \<noteq> itunes_image"
  by (simp_all add: itunes_image_def)

section \<open>Lemmas: results as pairs\<close>

lemma not_isl_Inr: "\<not> isl x \<Longrightarrow> \<exists>r. x = Inr r"
  by (cases x) simp_all

lemma pair_fst_snd: "fst x = a \<Longrightarrow> x = (a, snd x)"
  by (cases x) simp

lemma lookup_write_file: "lookup (write_file w p c) p = Some (File c)"
  by (simp add: lookup_def write_file_def)


lemma process_feed_tree:
  "fetch_feed w rss_url = (Inr root, w1) \<Longrightarrow> process_feed self w rss_url = process_tree self root w1"
  by (simp add: process_feed_def)

section \<open>The claims\<close>

subsection \<open>C9: the name of the file for \<open>My Episode #5!.mp3\<close>\<close>

text \<open>
  C9, as stated, fails: for a URL whose decoded path component is
  \<open>My Episode #5!.mp3\<close> the derived file name is not \<open>My_Episode_5.mp3\<close>.
\<close>

theorem episode_name_counterexample:
  "derive_filename ex_world ''http://example.com/My%20Episode%20%235!.mp3'' \<noteq> Some ''My_Episode_5.mp3''
   \<and> sanitize_filename ''My Episode #5!.mp3'' \<noteq> ''My_Episode_5.mp3''"
  by code_simp

text \<open>
  C9, amended: for a URL whose decoded path has the last segment
  \<open>My Episode #5!.mp3\<close>, the derived file name is \<open>My_Episode_#5!.mp3\<close> (the spaces
  become underscores; \<open>#\<close> and \<open>!\<close> are not in the strip set and stay), and a download
  that succeeds returns that name in the destination folder, where the file exists.
\<close>

theorem episode_name:
  assumes "urlparse w url = Some p"
    and "basename (unquote p) = ''My Episode #5!.mp3''"
    and "download_file w (Some url) folder = (Some dest, w')"
  shows "derive_filename w url = Some ''My_Episode_#5!.mp3''
         \<and> dest = join folder ''My_Episode_#5!.mp3'' \<and> path_exists w' dest"
proof -
  have "sanitize_filename ''My Episode #5!.mp3'' = ''My_Episode_#5!.mp3''"
    by code_simp
  with assms(1,2) have name: "derive_filename w url = Some ''My_Episode_#5!.mp3''"
    by (simp add: derive_filename_def)
  from download_file_Some[OF assms(3)] name show ?thesis
    by auto
qed

theorem episode_name_witness:
  "derive_filename ex_world ''http://example.com/My%20Episode%20%235!.mp3'' = Some ''My_Episode_#5!.mp3''
   \<and> fst (download_file ex_world (Some ''http://example.com/My%20Episode%20%235!.mp3'') ''out/media'')
       = Some ''out/media/My_Episode_#5!.mp3''
   \<and> path_exists
         (snd (download_file ex_world (Some ''http://example.com/My%20Episode%20%235!.mp3'')
                 ''out/media''))
         ''out/media/My_Episode_#5!.mp3''"
proof -
  let ?u = "''http://example.com/My%20Episode%20%235!.mp3''"
  have p: "urlparse ex_world ?u = Some ''/My%20Episode%20%235!.mp3''"
    by code_simp
  have b: "basename (unquote ''/My%20Episode%20%235!.mp3'') = ''My Episode #5!.mp3''"
    by code_simp
  have f: "fst (download_file ex_world (Some ?u) ''out/media'') = Some ''out/media/My_Episode_#5!.mp3''"
    by code_simp
  then have d: "download_file ex_world (Some ?u) ''out/media''
      = (Some ''out/media/My_Episode_#5!.mp3'', snd (download_file ex_world (Some ?u) ''out/media''))"
    by (rule pair_fst_snd)
  from episode_name[OF p b d] have
    n: "derive_filename ex_world ?u = Some ''My_Episode_#5!.mp3''" and
    e: "path_exists (snd (download_file ex_world (Some ?u) ''out/media''))
          ''out/media/My_Episode_#5!.mp3''"
    by blast+
  show ?thesis
    by (intro conjI n f e)
qed

subsection \<open>C5: the steps that derive a file name\<close>

text \<open>
  C5, as stated, fails: where the last segment of the path holds an escaped slash, the
  name derived by the code is not the one the stated order of steps gives.
\<close>

theorem derive_filename_order_counterexample:
  "derive_filename ex_world ''http://example.com/a%2Fb.mp3'' = Some ''b.mp3''
   \<and> spec_derive_filename ex_world ''http://example.com/a%2Fb.mp3'' = Some ''ab.mp3''"
  by code_simp

text \<open>
  C5, amended: a URL has a file name exactly when \<open>urlparse\<close> gives it a path. The name
  is derived by percent-decoding the path, then taking the last segment of the decoded
  path (what follows its last slash), then removing exactly the characters
  \<open>< > : " / \ | ? *\<close> from the segment, then taking off the white space characters
  that surround the rest (what is left neither begins nor ends with one), then
  replacing each space by an underscore.
\<close>

theorem derive_filename_steps:
  "(urlparse w url = None \<longrightarrow> derive_filename w url = None)
   \<and> (\<forall>path. urlparse w url = Some path \<longrightarrow>
        (\<exists>dir seg pre core suf.
           unquote path = dir @ seg \<and> CHR ''/'' \<notin> set seg \<and> (dir = [] \<or> last dir = CHR ''/'')
           \<and> filter (\<lambda>c. c \<notin> {CHR ''<'', CHR ''>'', CHR '':'', CHR 0x22, CHR ''/'', CHR 0x5C,
                                 CHR ''|'', CHR ''?'', CHR ''*''}) seg
               = concat pre @ core @ concat suf
           \<and> set pre \<subseteq> set whitespace \<and> set suf \<subseteq> set whitespace
           \<and> (\<forall>sp\<in>set whitespace.
                 take (length sp) core \<noteq> sp \<and> drop (length core - length sp) core \<noteq> sp)
           \<and> derive_filename w url
               = Some (map (\<lambda>c. if c = CHR '' '' then CHR ''_'' else c) core)))"
proof (intro conjI allI impI)
  assume "urlparse w url = None"
  then show "derive_filename w url = None"
    by (simp add: derive_filename_def)
next
  fix path
  assume path: "urlparse w url = Some path"
  let ?seg = "basename (unquote path)"
  let ?kept = "filter (\<lambda>c. c \<notin> forbidden_chars) ?seg"
  from basename_split[of "unquote path"] obtain dir where
    dir: "unquote path = dir @ ?seg" "CHR ''/'' \<notin> set ?seg" "dir = [] \<or> last dir = CHR ''/''"
    by blast
  from strip_split[of ?kept] obtain pre suf where
    trim: "?kept = concat pre @ strip ?kept @ concat suf" "set pre \<subseteq> set whitespace"
    "set suf \<subseteq> set whitespace"
    "\<forall>sp\<in>set whitespace.
       take (length sp) (strip ?kept) \<noteq> sp
       \<and> drop (length (strip ?kept) - length sp) (strip ?kept) \<noteq> sp"
    by blast
  have name: "derive_filename w url
      = Some (map (\<lambda>c. if c = CHR '' '' then CHR ''_'' else c) (strip ?kept))"
    using path by (simp add: derive_filename_def sanitize_filename_def replace_spaces_def)
  have kept: "filter (\<lambda>c. c \<notin> {CHR ''<'', CHR ''>'', CHR '':'', CHR 0x22, CHR ''/'', CHR 0x5C,
                                 CHR ''|'', CHR ''?'', CHR ''*''}) ?seg = ?kept"
    by (simp add: forbidden_chars_def)
  let ?core = "strip ?kept"
  have "unquote path = dir @ ?seg \<and> CHR ''/'' \<notin> set ?seg \<and> (dir = [] \<or> last dir = CHR ''/'')
           \<and> filter (\<lambda>c. c \<notin> {CHR ''<'', CHR ''>'', CHR '':'', CHR 0x22, CHR ''/'', CHR 0x5C,
                                 CHR ''|'', CHR ''?'', CHR ''*''}) ?seg
               = concat pre @ ?core @ concat suf
           \<and> set pre \<subseteq> set whitespace \<and> set suf \<subseteq> set whitespace
           \<and> (\<forall>sp\<in>set whitespace.
                 take (length sp) ?core \<noteq> sp \<and> drop (length ?core - length sp) ?core \<noteq> sp)
           \<and> derive_filename w url
               = Some (map (\<lambda>c. if c = CHR '' '' then CHR ''_'' else c) ?core)"
    unfolding kept using dir trim name by blast
  then show "\<exists>dir seg pre core suf.
           unquote path = dir @ seg \<and> CHR ''/'' \<notin> set seg \<and> (dir = [] \<or> last dir = CHR ''/'')
           \<and> filter (\<lambda>c. c \<notin> {CHR ''<'', CHR ''>'', CHR '':'', CHR 0x22, CHR ''/'', CHR 0x5C,
                                 CHR ''|'', CHR ''?'', CHR ''*''}) seg
               = concat pre @ core @ concat suf
           \<and> set pre \<subseteq> set whitespace \<and> set suf \<subseteq> set whitespace
           \<and> (\<forall>sp\<in>set whitespace.
                 take (length sp) core \<noteq> sp \<and> drop (length core - length sp) core \<noteq> sp)
           \<and> derive_filename w url
               = Some (map (\<lambda>c. if c = CHR '' '' then CHR ''_'' else c) core)"
    by blast
qed

theorem derive_filename_steps_witness:
  "urlparse ex_world ''http://example.com/p/%C2%A0My%20%3CEpisode%3E%3A%205.mp3%20''
     = Some ''/p/%C2%A0My%20%3CEpisode%3E%3A%205.mp3%20''
   \<and> derive_filename ex_world ''http://example.com/p/%C2%A0My%20%3CEpisode%3E%3A%205.mp3%20''
       = Some ''My_Episode_5.mp3''
   \<and> (\<exists>core. map (\<lambda>c. if c = CHR '' '' then CHR ''_'' else c) core = ''My_Episode_5.mp3''
         \<and> take 1 core \<noteq> '' '' \<and> drop (length core - 1) core \<noteq> '' '')"
proof -
  let ?u = "''http://example.com/p/%C2%A0My%20%3CEpisode%3E%3A%205.mp3%20''"
  have h: "urlparse ex_world ?u = Some ''/p/%C2%A0My%20%3CEpisode%3E%3A%205.mp3%20''"
    by code_simp
  have d: "derive_filename ex_world ?u = Some ''My_Episode_5.mp3''"
    by code_simp
  have sp: "'' '' \<in> set whitespace"
    by (simp add: whitespace_def)
  from derive_filename_steps[of ex_world ?u, THEN conjunct2, rule_format, OF h] obtain core where
    ends: "\<forall>sp\<in>set whitespace.
             take (length sp) core \<noteq> sp \<and> drop (length core - length sp) core \<noteq> sp"
    and name: "derive_filename ex_world ?u
                 = Some (map (\<lambda>c. if c = CHR '' '' then CHR ''_'' else c) core)"
    by blast
  from name d have m: "map (\<lambda>c. if c = CHR '' '' then CHR ''_'' else c) core = ''My_Episode_5.mp3''"
    by simp
  from bspec[OF ends sp] have e: "take 1 core \<noteq> '' ''" "drop (length core - 1) core \<noteq> '' ''"
    by simp_all
  have x: "\<exists>core. map (\<lambda>c. if c = CHR '' '' then CHR ''_'' else c) core = ''My_Episode_5.mp3''
         \<and> take 1 core \<noteq> '' '' \<and> drop (length core - 1) core \<noteq> '' ''"
  proof (intro exI conjI)
    show "map (\<lambda>c. if c = CHR '' '' then CHR ''_'' else c) core = ''My_Episode_5.mp3''"
      by (rule m)
    show "take 1 core \<noteq> '' ''"
      by (rule e(1))
    show "drop (length core - 1) core \<noteq> '' ''"
      by (rule e(2))
  qed
  show ?thesis
    by (intro conjI h d x)
qed

subsection \<open>C1: a download that fails\<close>



subsection \<open>C2: the length of a downloaded enclosure\<close>

text \<open>
  C2: when the download of an item's enclosure succeeds, the enclosure's \<open>length\<close>
  becomes the decimal numeral of the size of the downloaded file as it is on disk,
  whatever the attribute held before (if anything), and its \<open>url\<close> the relative path
  of the file. The size on disk stays that number as the world evolves.
\<close>

theorem enclosure_length_is_file_size:
  assumes "find_child ''enclosure'' item = Some j"
    and "download_file w (get_attr (children item ! j) ''url'') (media_folder self)
           = (Some audio_path, w1)"
  shows "\<exists>n item'.
           process_enclosure self item w = (Inr item', w1)
           \<and> getsize w1 audio_path = Inr n
           \<and> get_attr (children item' ! j) ''length'' = Some (str_nat n)
           \<and> int_of_str (str_nat n) = n
           \<and> get_attr (children item' ! j) ''url''
               = Some (relpath (getcwd w1) audio_path (output_folder self))
           \<and> (\<forall>c. lookup w1 audio_path = Some (File c) \<longrightarrow> n = length c)
           \<and> (\<forall>w2. evolves w1 w2 \<longrightarrow> getsize w2 audio_path = Inr n)"
proof -
  from download_file_Some[OF assms(2)] obtain u where
    u: "get_attr (children item ! j) ''url'' = Some u"
    and ne: "audio_path \<noteq> []" and ex: "path_exists w1 audio_path"
    by auto
  from path_exists_getsize[OF ex] obtain n where n: "getsize w1 audio_path = Inr n" ..
  let ?rel = "relpath (getcwd w1) audio_path (output_folder self)"
  let ?item' = "update_at [j] (set_attr ''length'' (str_nat n)) (update_at [j] (set_attr ''url'' ?rel) item)"
  have j: "j < length (children item)"
    using find_child_lt[OF assms(1)] by simp
  have run: "process_enclosure self item w = (Inr ?item', w1)"
    using assms u ne n by (simp add: process_enclosure_def Let_def)
  have child: "children ?item' ! j = set_attr ''length'' (str_nat n) (set_attr ''url'' ?rel (children item ! j))"
    using j by (simp add: child_update_at)
  have len: "get_attr (children ?item' ! j) ''length'' = Some (str_nat n)"
    by (simp add: child get_attr_set_attr)
  have url: "get_attr (children ?item' ! j) ''url'' = Some ?rel"
    by (simp add: child get_attr_set_attr)
  have size: "\<forall>c. lookup w1 audio_path = Some (File c) \<longrightarrow> n = length c"
    using n ne by (auto simp: getsize_def)
  have later: "\<forall>w2. evolves w1 w2 \<longrightarrow> getsize w2 audio_path = Inr n"
    using n by (auto intro: evolves_getsize)
  from run n len url size later show ?thesis
    by (intro exI[of _ n] exI[of _ ?item']) (simp add: int_of_str_str_nat)
qed

theorem enclosure_length_is_file_size_witness:
  "\<exists>item'. fst (process_enclosure ex_self ex_item1 ex_world) = Inr item'
      \<and> get_attr (children ex_item1 ! 0) ''length'' = Some ''1''
      \<and> get_attr (children item' ! 0) ''length'' = Some ''5''
      \<and> get_attr (children item' ! 0) ''url'' = Some ''media/a.mp3''
      \<and> lookup (snd (process_enclosure ex_self ex_item1 ex_world)) ''out/media/a.mp3''
          = Some (File ''abcde'')"
proof -
  let ?d = "download_file ex_world (get_attr (children ex_item1 ! 0) ''url'') (media_folder ex_self)"
  have j: "find_child ''enclosure'' ex_item1 = Some 0"
    by code_simp
  have "fst ?d = Some ''out/media/a.mp3''"
    by code_simp
  then have d: "?d = (Some ''out/media/a.mp3'', snd ?d)"
    by (rule pair_fst_snd)
  have content: "lookup (snd ?d) ''out/media/a.mp3'' = Some (File ''abcde'')"
    by code_simp
  have cwd: "getcwd (snd ?d) = ''/home/u''"
    using download_file_evolves[OF d] by (simp add: evolves_def ex_world_def)
  have rel: "relpath ''/home/u'' ''out/media/a.mp3'' (output_folder ex_self) = ''media/a.mp3''"
    by code_simp
  have old: "get_attr (children ex_item1 ! 0) ''length'' = Some ''1''"
    by code_simp
  have five: "str_nat 5 = ''5''"
    by code_simp
  from enclosure_length_is_file_size[OF j d] obtain n item' where
    r: "process_enclosure ex_self ex_item1 ex_world = (Inr item', snd ?d)"
    and len: "get_attr (children item' ! 0) ''length'' = Some (str_nat n)"
    and url: "get_attr (children item' ! 0) ''url''
                = Some (relpath (getcwd (snd ?d)) ''out/media/a.mp3'' (output_folder ex_self))"
    and size: "\<forall>c. lookup (snd ?d) ''out/media/a.mp3'' = Some (File c) \<longrightarrow> n = length c"
    by blast
  from size content have n: "n = 5"
    by simp
  have 1: "fst (process_enclosure ex_self ex_item1 ex_world) = Inr item'"
    by (simp add: r)
  have 2: "get_attr (children item' ! 0) ''length'' = Some ''5''"
    using len n five by simp
  have 3: "get_attr (children item' ! 0) ''url'' = Some ''media/a.mp3''"
    using url cwd rel by simp
  have 4: "lookup (snd (process_enclosure ex_self ex_item1 ex_world)) ''out/media/a.mp3''
          = Some (File ''abcde'')"
    using content by (simp add: r)
  show ?thesis
    by (rule exI[of _ item']) (intro conjI 1 old 2 3 4)
qed

subsection \<open>C3: the items of the output\<close>

text \<open>
  C3: a run that completes writes to \<open>feed.xml\<close> the serialisation of a document that
  has the skeleton of the document fetched: the same elements with the same tags in the
  same order, the same texts but those of \<open>url\<close> and \<open>lastBuildDate\<close> elements, and the
  same attributes but for the values of \<open>url\<close>, \<open>length\<close> and \<open>href\<close>. So the items of
  the output are those of the input, as many and in the same order.
\<close>

theorem item_order_preserved:
  assumes "fetch_feed w rss_url = (Inr root, w1)"
    and "process_feed self w rss_url = (Inr root', w')"
  shows "skeleton root' = skeleton root
         \<and> map skeleton (items_of root') = map skeleton (items_of root)
         \<and> length (items_of root') = length (items_of root)
         \<and> lookup w' (join (output_folder self) ''feed.xml'') = Some (File (tostring w' root'))"
proof -
  from assms have run: "process_tree self root w1 = (Inr root', w')"
    by (simp add: process_feed_def)
  have sk: "skeleton root' = skeleton root"
    by (rule process_tree_skeleton[OF run])
  have items: "map skeleton (items_of root') = map skeleton (items_of root)"
    by (rule skeleton_eq_items_of[OF sk])
  from items have len: "length (items_of root') = length (items_of root)"
    by (rule map_eq_imp_length_eq)
  from run obtain w2 where
    "w' = write_file w2 (join (output_folder self) ''feed.xml'') (tostring w2 root')"
    by (rule process_tree_Inr)
  then have out: "lookup w' (join (output_folder self) ''feed.xml'') = Some (File (tostring w' root'))"
    by (simp add: lookup_write_file write_file_def lookup_def)
  from sk items len out show ?thesis
    by simp
qed

theorem item_order_preserved_witness:
  "\<exists>root' w'. process_feed ex_self ex_world ''http://example.com/feed'' = (Inr root', w')
      \<and> map skeleton (items_of root') = map skeleton [ex_item1, ex_item2]
      \<and> skeleton ex_item1 \<noteq> skeleton ex_item2
      \<and> length (items_of root') = 2
      \<and> lookup w' ''out/feed.xml'' = Some (File (tostring w' root'))"
proof -
  let ?f = "fetch_feed ex_world ''http://example.com/feed''"
  have "fst ?f = Inr ex_feed"
    by code_simp
  then have f: "?f = (Inr ex_feed, snd ?f)"
    by (rule pair_fst_snd)
  have c: "find_child ''channel'' ex_feed = Some 0"
    by code_simp
  have ok: "\<forall>i\<in>set (findall ''item'' (children ex_feed ! 0)).
              enclosure_ok (children (children ex_feed ! 0) ! i)"
    by code_simp
  have "can_write (snd ?f) = can_write ex_world"
    using fetch_feed_world[OF f] by (simp add: evolves_def)
  then have cw: "can_write (snd ?f) (join (output_folder ex_self) ''feed.xml'')"
    by (simp add: ex_world_def)
  from process_tree_completes[OF c ok cw] obtain root' w' where
    "process_tree ex_self ex_feed (snd ?f) = (Inr root', w')"
    by blast
  then have p: "process_feed ex_self ex_world ''http://example.com/feed'' = (Inr root', w')"
    by (simp only: process_feed_tree[OF f])
  have items: "items_of ex_feed = [ex_item1, ex_item2]"
    by code_simp
  have out: "join (output_folder ex_self) ''feed.xml'' = ''out/feed.xml''"
    by code_simp
  have differ: "skeleton ex_item1 \<noteq> skeleton ex_item2"
    by code_simp
  from item_order_preserved[OF f p] have
    1: "map skeleton (items_of root') = map skeleton [ex_item1, ex_item2]"
    and 2: "length (items_of root') = 2"
    and 3: "lookup w' ''out/feed.xml'' = Some (File (tostring w' root'))"
    by (simp_all add: items out)
  show ?thesis
    by (intro exI[of _ root'] exI[of _ w'] conjI p 1 differ 2 3)
qed

subsection \<open>C4: a file that exists is not transferred again\<close>



subsection \<open>C8: the cover in the plain form\<close>




subsection \<open>C10: an episode image taken as the cover\<close>

text \<open>
  C10: the cover lookup searches all the descendants of the channel. In a channel with
  no podcast-namespace image outside its items, the image found is the first such
  image of the first item that has one. It is downloaded to the images folder and, when
  the download succeeds, its \<open>href\<close> is rewritten to the relative path, as for a cover
  of the channel; when the download fails, the channel is left as it is.
\<close>

theorem episode_image_taken_as_cover:
  assumes "k < length (children channel)"
    and "tag (children channel ! k) = ''item''"
    and "find_descendant itunes_image (children channel ! k) = Some (q, e)"
    and "\<forall>j<length (children channel). tag (children channel ! j) \<noteq> ''item'' \<longrightarrow>
           tag (children channel ! j) \<noteq> itunes_image
           \<and> find_descendant itunes_image (children channel ! j) = None"
    and "\<forall>j<k. tag (children channel ! j) = ''item'' \<longrightarrow>
           find_descendant itunes_image (children channel ! j) = None"
  shows "find_descendant itunes_image channel = Some (k # q, e)
         \<and> (\<forall>image_path w1.
               download_file w (get_attr e ''href'') (images_folder self) = (Some image_path, w1) \<longrightarrow>
               (\<exists>channel' e'.
                  process_cover self channel w = (channel', w1)
                  \<and> get_at (k # q) channel' = Some e'
                  \<and> get_attr e' ''href''
                      = Some (relpath (getcwd w1) image_path (output_folder self))))
         \<and> (\<forall>w1. download_file w (get_attr e ''href'') (images_folder self) = (None, w1) \<longrightarrow>
               process_cover self channel w = (channel, w1))"
proof -
  have before: "\<forall>j<k. tag (children channel ! j) \<noteq> itunes_image
                  \<and> find_descendant itunes_image (children channel ! j) = None"
  proof (intro allI impI)
    fix j assume j: "j < k"
    show "tag (children channel ! j) \<noteq> itunes_image
            \<and> find_descendant itunes_image (children channel ! j) = None"
    proof (cases "tag (children channel ! j) = ''item''")
      case True
      with assms(5) j show ?thesis by simp
    next
      case False
      with assms(1,4) j show ?thesis by simp
    qed
  qed
  have found: "find_descendant itunes_image channel = Some (k # q, e)"
    by (rule find_descendant_first_child[OF assms(1) before _ assms(3)]) (simp add: assms(2))
  have at: "get_at (k # q) channel = Some e"
    using find_descendant_Some[OF found] by simp
  have failed: "\<forall>w1. download_file w (get_attr e ''href'') (images_folder self) = (None, w1) \<longrightarrow>
               process_cover self channel w = (channel, w1)"
    using found by (simp add: process_cover_def)
  have rewritten: "\<exists>channel' e'.
                  process_cover self channel w = (channel', w1)
                  \<and> get_at (k # q) channel' = Some e'
                  \<and> get_attr e' ''href'' = Some (relpath (getcwd w1) image_path (output_folder self))"
    if d: "download_file w (get_attr e ''href'') (images_folder self) = (Some image_path, w1)"
    for image_path w1
  proof -
    let ?rel = "relpath (getcwd w1) image_path (output_folder self)"
    let ?channel1 = "update_at (k # q) (set_attr ''href'' ?rel) channel"
    from download_file_Some[OF d] have ne: "image_path \<noteq> []" by auto
    have at1: "get_at (k # q) ?channel1 = Some (set_attr ''href'' ?rel e)"
      by (rule get_at_update_at_same[OF at])
    have href: "get_attr (set_attr ''href'' ?rel e) ''href'' = Some ?rel"
      by (simp add: get_attr_set_attr)
    show ?thesis
    proof (cases "find_grandchild ''image'' ''url'' ?channel1")
      case None
      with found d ne have "process_cover self channel w = (?channel1, w1)"
        by (simp add: process_cover_def Let_def)
      with at1 href show ?thesis by blast
    next
      case (Some p)
      from find_grandchild_Some[OF Some] obtain a b where
        p: "p = [a, b]" and a: "a < length (children ?channel1)"
        and ta: "tag (children ?channel1 ! a) = ''image''"
        by auto
      have "a \<noteq> k"
      proof
        assume "a = k"
        with ta have "tag (update_at q (set_attr ''href'' ?rel) (children channel ! k)) = ''image''"
          using assms(1) by (simp add: update_at.simps)
        moreover have "tag (update_at q (set_attr ''href'' ?rel) (children channel ! k))
            = tag (children channel ! k)"
          by (rule skeleton_eq_tag) (simp add: skeleton_update_attr)
        ultimately show False using assms(2) by simp
      qed
      then have "k \<noteq> a"
        by simp
      then have "get_at (k # q) (update_at p (set_text ?rel) ?channel1) = get_at (k # q) ?channel1"
        unfolding p by (rule get_at_update_at_other)
      moreover from found d ne Some
      have "process_cover self channel w = (update_at p (set_text ?rel) ?channel1, w1)"
        by (simp add: process_cover_def Let_def)
      ultimately show ?thesis using at1 href by auto
    qed
  qed
  from found failed rewritten show ?thesis by blast
qed

theorem episode_image_taken_as_cover_witness:
  "find_descendant itunes_image ex_episode_cover
     = Some ([2, 1], Element itunes_image [(''href'', ''http://example.com/cover.jpg'')] None [])
   \<and> tag (children ex_episode_cover ! 2) = ''item''
   \<and> (\<exists>e'. get_at [2, 1] (fst (process_cover ex_self ex_episode_cover ex_world)) = Some e'
         \<and> get_attr e' ''href'' = Some ''images/cover.jpg'')
   \<and> path_exists (snd (process_cover ex_self ex_episode_cover ex_world)) ''out/images/cover.jpg''"
proof -
  let ?e = "Element itunes_image [(''href'', ''http://example.com/cover.jpg'')] None []"
  let ?d = "download_file ex_world (get_attr ?e ''href'') (images_folder ex_self)"
  have k: "2 < length (children ex_episode_cover)"
    by code_simp
  have item: "tag (children ex_episode_cover ! 2) = ''item''"
    by code_simp
  have found: "find_descendant itunes_image (children ex_episode_cover ! 2) = Some ([1], ?e)"
    by code_simp
  have "list_all (\<lambda>j. tag (children ex_episode_cover ! j) \<noteq> ''item'' \<longrightarrow>
           tag (children ex_episode_cover ! j) \<noteq> itunes_image
           \<and> find_descendant itunes_image (children ex_episode_cover ! j) = None)
          [0..<length (children ex_episode_cover)]"
    by code_simp
  then have others: "\<forall>j<length (children ex_episode_cover).
           tag (children ex_episode_cover ! j) \<noteq> ''item'' \<longrightarrow>
           tag (children ex_episode_cover ! j) \<noteq> itunes_image
           \<and> find_descendant itunes_image (children ex_episode_cover ! j) = None"
    by (simp add: list_all_iff)
  have "list_all (\<lambda>j. tag (children ex_episode_cover ! j) = ''item'' \<longrightarrow>
           find_descendant itunes_image (children ex_episode_cover ! j) = None) [0..<2]"
    by code_simp
  then have before: "\<forall>j<2. tag (children ex_episode_cover ! j) = ''item'' \<longrightarrow>
           find_descendant itunes_image (children ex_episode_cover ! j) = None"
    by (simp add: list_all_iff)
  have "fst ?d = Some ''out/images/cover.jpg''"
    by code_simp
  then have d: "?d = (Some ''out/images/cover.jpg'', snd ?d)"
    by (rule pair_fst_snd)
  have cwd: "getcwd (snd ?d) = ''/home/u''"
    using download_file_evolves[OF d] by (simp add: evolves_def ex_world_def)
  have rel: "relpath ''/home/u'' ''out/images/cover.jpg'' (output_folder ex_self) = ''images/cover.jpg''"
    by code_simp
  from download_file_Some[OF d] have ex: "path_exists (snd ?d) ''out/images/cover.jpg''"
    by auto
  note t = episode_image_taken_as_cover[of 2 ex_episode_cover "[1]" ?e ex_world ex_self,
      OF k item found others before]
  from t have 1: "find_descendant itunes_image ex_episode_cover = Some ([2, 1], ?e)"
    by (rule conjunct1)
  from t[THEN conjunct2, THEN conjunct1, rule_format, OF d] obtain channel' e' where
    r: "process_cover ex_self ex_episode_cover ex_world = (channel', snd ?d)"
    and at: "get_at [2, 1] channel' = Some e'"
    and href: "get_attr e' ''href''
                 = Some (relpath (getcwd (snd ?d)) ''out/images/cover.jpg'' (output_folder ex_self))"
    by blast
  have 2: "get_at [2, 1] (fst (process_cover ex_self ex_episode_cover ex_world)) = Some e'"
    using at by (simp add: r)
  have 3: "get_attr e' ''href'' = Some ''images/cover.jpg''"
    using href cwd rel by simp
  have 4: "path_exists (snd (process_cover ex_self ex_episode_cover ex_world)) ''out/images/cover.jpg''"
    using ex by (simp add: r)
  have "\<exists>e'. get_at [2, 1] (fst (process_cover ex_self ex_episode_cover ex_world)) = Some e'
         \<and> get_attr e' ''href'' = Some ''images/cover.jpg''"
    by (rule exI[of _ e']) (intro conjI 2 3)
  then show ?thesis
    by (intro conjI 1 item 4)
qed

end
